theory Spec2Isabelle
  imports Main "HOL-Library.Word"
begin

unbundle bit_operations_syntax

section \<open>Memory, the raw SMBIOS data and the decoder object\<close>

text \<open>
  The decoder of \<^verbatim>\<open>base/devices/smbios.cc\<close> walks raw byte pointers. Memory is a total
  map from offsets to bytes; offset 0 is the first byte of \<^verbatim>\<open>smbios_table_data\<close>, and the
  table region is the offsets below the \<^verbatim>\<open>length\<close> field of the header. A pointer into
  the table data is its offset. Nothing in the type stops a read at or beyond the end
  of the region, exactly as nothing stops the pointer arithmetic of the source; the walk
  that counts the structures records every offset it dereferences, so that such reads
  can be seen.
\<close>

type_synonym memory = "nat \<Rightarrow> 8 word"

text \<open>The memory that holds the given bytes from offset 0 on, and zero bytes after them.\<close>

definition memory_of :: "8 word list \<Rightarrow> memory" where
  "memory_of bs = (\<lambda>i. if i < length bs then bs ! i else 0)"

text \<open>\<^verbatim>\<open>*reinterpret_cast<const uint16_t*>(pos)\<close>, little-endian.\<close>

definition read_u16 :: "memory \<Rightarrow> nat \<Rightarrow> 16 word" where
  "read_u16 m pos = ucast (m pos) OR push_bit 8 (ucast (m (pos + 1)))"

text \<open>\<^verbatim>\<open>*reinterpret_cast<const uint64_t*>(pos)\<close>, little-endian.\<close>

definition read_u64 :: "memory \<Rightarrow> nat \<Rightarrow> 64 word" where
  "read_u64 m pos =
     ucast (m pos) OR push_bit 8 (ucast (m (pos + 1))) OR
     push_bit 16 (ucast (m (pos + 2))) OR push_bit 24 (ucast (m (pos + 3))) OR
     push_bit 32 (ucast (m (pos + 4))) OR push_bit 40 (ucast (m (pos + 5))) OR
     push_bit 48 (ucast (m (pos + 6))) OR push_bit 56 (ucast (m (pos + 7)))"

text \<open>
  Modelled from the spec: the header \<^verbatim>\<open>SMBiosData\<close> is declared in
  \<^verbatim>\<open>base/devices/smbios.h\<close>, which is not among the sources. The specification's data model
  gives its content: the major and minor version bytes, the table-region length and the
  table bytes. The source reads the fields \<^verbatim>\<open>smbios_major_version\<close>,
  \<^verbatim>\<open>smbios_minor_version\<close>, \<^verbatim>\<open>length\<close> (a \<^verbatim>\<open>uint32_t\<close>, passed to
  \<^verbatim>\<open>GetTableCount\<close>) and \<^verbatim>\<open>smbios_table_data\<close>.
\<close>

record SMBiosData =
  smbios_major_version :: "8 word"
  smbios_minor_version :: "8 word"
  length_field :: "32 word"
  smbios_table_data :: memory

text \<open>
  The object \<^verbatim>\<open>SMBios\<close> with its members \<^verbatim>\<open>data_\<close>, \<^verbatim>\<open>data_size_\<close> and
  \<^verbatim>\<open>table_count_\<close> (an \<^verbatim>\<open>int\<close>).
\<close>

record SMBios =
  smbios_data :: SMBiosData
  data_size :: nat
  table_count :: int

section \<open>Counting the structures\<close>

text \<open>
  The inner loop of \<^verbatim>\<open>SMBios::GetTableCount\<close>:
  \<^verbatim>\<open>while (*reinterpret_cast<const uint16_t*>(pos) != 0 && pos < end) ++pos;\<close>
  The 16-bit read is the first operand of \<^verbatim>\<open>&&\<close>, so it happens each time the condition
  is evaluated, before \<^verbatim>\<open>pos\<close> is compared with \<^verbatim>\<open>end\<close>. The result is the final
  \<^verbatim>\<open>pos\<close> and the offsets read so far.
\<close>

function GetTableCount_strings :: "memory \<Rightarrow> nat \<Rightarrow> nat \<Rightarrow> nat list \<Rightarrow> nat \<times> nat list" where
  "GetTableCount_strings m endp pos reads =
     (if read_u16 m pos \<noteq> 0 \<and> pos < endp
      then GetTableCount_strings m endp (pos + 1) (reads @ [pos, pos + 1])
      else (pos, reads @ [pos, pos + 1]))"
  by pat_completeness auto
termination
  by (relation "measure (\<lambda>(m, endp, pos, reads). endp - pos)") auto

declare GetTableCount_strings.simps [simp del]

lemma GetTableCount_strings_ge: "pos \<le> fst (GetTableCount_strings m endp pos reads)"
proof (induction m endp pos reads rule: GetTableCount_strings.induct)
  case (1 m endp pos reads)
  show ?case
  proof (cases "read_u16 m pos \<noteq> 0 \<and> pos < endp")
    case True
    with "1" have "pos + 1 \<le> fst (GetTableCount_strings m endp (pos + 1) (reads @ [pos, pos + 1]))"
      by simp
    with True show ?thesis by (subst GetTableCount_strings.simps) simp
  next
    case False
    then show ?thesis by (subst GetTableCount_strings.simps) auto
  qed
qed

text \<open>
  The outer loop of \<^verbatim>\<open>SMBios::GetTableCount\<close>: \<^verbatim>\<open>pos += pos[1]\<close>, the inner loop,
  \<^verbatim>\<open>pos += 2\<close>, \<^verbatim>\<open>++count\<close>, while \<^verbatim>\<open>pos < end\<close>. The result is the number of
  increments of \<^verbatim>\<open>count\<close> and the offsets read.
\<close>

function GetTableCount_loop :: "memory \<Rightarrow> nat \<Rightarrow> nat \<Rightarrow> nat \<Rightarrow> nat list \<Rightarrow> nat \<times> nat list" where
  "GetTableCount_loop m endp pos count reads =
     (if pos < endp then
        (let after = GetTableCount_strings m endp (pos + unat (m (pos + 1))) (reads @ [pos + 1])
         in GetTableCount_loop m endp (fst after + 2) (count + 1) (snd after))
      else (count, reads))"
  by pat_completeness auto
termination
proof (relation "measure (\<lambda>(m, endp, pos, count, reads). endp - pos)")
  show "wf (measure (\<lambda>(m, endp, pos, count, reads). endp - pos))" by simp
next
  fix m :: memory and endp pos count :: nat and reads :: "nat list" and after
  assume "pos < endp"
    and "after = GetTableCount_strings m endp (pos + unat (m (pos + 1))) (reads @ [pos + 1])"
  moreover have "pos + unat (m (pos + 1))
      \<le> fst (GetTableCount_strings m endp (pos + unat (m (pos + 1))) (reads @ [pos + 1]))"
    by (rule GetTableCount_strings_ge)
  ultimately show "((m, endp, fst after + 2, count + 1, snd after), (m, endp, pos, count, reads))
       \<in> measure (\<lambda>(m, endp, pos, count, reads). endp - pos)"
    by simp
qed

declare GetTableCount_loop.simps [simp del]

text \<open>
  \<^verbatim>\<open>SMBios::GetTableCount(table_data, length)\<close>. \<^verbatim>\<open>length\<close> is a \<^verbatim>\<open>uint32_t\<close>.
  \<^verbatim>\<open>count\<close> is an \<^verbatim>\<open>int\<close>: the value returned is the number of increments wrapped to
  32 bits and read as two's complement.
\<close>

definition GetTableCount :: "memory \<Rightarrow> 32 word \<Rightarrow> int" where
  "GetTableCount table_data len =
     sint (word_of_nat (fst (GetTableCount_loop table_data (unat len) 0 0 [])) :: 32 word)"

text \<open>The offsets, relative to \<^verbatim>\<open>table_data\<close>, that the same call dereferences, in order.\<close>

definition GetTableCount_reads :: "memory \<Rightarrow> 32 word \<Rightarrow> nat list" where
  "GetTableCount_reads table_data len = snd (GetTableCount_loop table_data (unat len) 0 0 [])"

section \<open>Creating the decoder\<close>

text \<open>
  \<^verbatim>\<open>SMBios::Create\<close> returns \<^verbatim>\<open>nullptr\<close> at two places. The specification names them:
  \<^verbatim>\<open>EmptyInput\<close> for a null or empty buffer, \<^verbatim>\<open>NoStructures\<close> for a zero structure
  count (the source logs "SMBios tables not found" there).
\<close>

datatype error = EmptyInput | NoStructures

definition Create :: "SMBiosData option \<Rightarrow> nat \<Rightarrow> error + SMBios" where
  "Create data_arg data_size_arg =
     (case data_arg of
        None \<Rightarrow> Inl EmptyInput
      | Some smbios \<Rightarrow>
          if data_size_arg = 0 then Inl EmptyInput
          else
            let table_count_local = GetTableCount (smbios_table_data smbios) (length_field smbios) in
            if table_count_local = 0 then Inl NoStructures
            else Inr \<lparr>smbios_data = smbios, data_size = data_size_arg,
                      table_count = table_count_local\<rparr>)"

section \<open>Locating a structure by type\<close>

text \<open>
  Modelled from the spec: the enumeration \<^verbatim>\<open>TableType\<close> is declared in
  \<^verbatim>\<open>base/devices/smbios.h\<close>, which is not among the sources. A type code is a byte, and the
  end-of-table marker is the type code 127.
\<close>

definition TABLE_TYPE_END_OF_TABLE :: "8 word" where
  "TABLE_TYPE_END_OF_TABLE = 0x7F"

text \<open>
  The inner loop of \<^verbatim>\<open>SMBios::GetTable\<close>:
  \<^verbatim>\<open>while (next - start + 1 < length && (next[0] != 0 || next[1] != 0)) ++next;\<close>
\<close>

function GetTable_next :: "memory \<Rightarrow> nat \<Rightarrow> nat \<Rightarrow> nat" where
  "GetTable_next m len next =
     (if next + 1 < len \<and> (m next \<noteq> 0 \<or> m (next + 1) \<noteq> 0)
      then GetTable_next m len (next + 1)
      else next)"
  by pat_completeness auto
termination
  by (relation "measure (\<lambda>(m, len, next). len - next)") auto

declare GetTable_next.simps [simp del]

lemma GetTable_next_ge: "next \<le> GetTable_next m len next"
proof (induction m len "next" rule: GetTable_next.induct)
  case (1 m len "next")
  show ?case
  proof (cases "next + 1 < len \<and> (m next \<noteq> 0 \<or> m (next + 1) \<noteq> 0)")
    case True
    with "1" have "next + 1 \<le> GetTable_next m len (next + 1)" by simp
    with True show ?thesis by (subst GetTable_next.simps) simp
  next
    case False
    then show ?thesis by (subst GetTable_next.simps) auto
  qed
qed

text \<open>
  The outer loop of \<^verbatim>\<open>SMBios::GetTable\<close>. A \<^verbatim>\<open>break\<close> leaves the loop for the
  \<^verbatim>\<open>return nullptr\<close> at the end of the function, which is \<open>None\<close>; the two warnings logged
  after the loop do not change the value returned. \<^verbatim>\<open>table_index\<close> is an \<^verbatim>\<open>int\<close> that
  is only incremented while it is below \<^verbatim>\<open>table_count_\<close>, so it cannot overflow.
\<close>

function GetTable_loop :: "memory \<Rightarrow> nat \<Rightarrow> int \<Rightarrow> 8 word \<Rightarrow> nat \<Rightarrow> int \<Rightarrow> nat option" where
  "GetTable_loop m len table_count_m type pos table_index =
     (if table_index < table_count_m \<and> pos + 4 \<le> len then
        (let table_type = m pos; table_length = m (pos + 1) in
         if table_length < 4 then None
         else if table_type = type then Some pos
         else if table_type = TABLE_TYPE_END_OF_TABLE then None
         else GetTable_loop m len table_count_m type
                (GetTable_next m len (pos + unat table_length) + 2) (table_index + 1))
      else None)"
  by pat_completeness auto
termination
proof (relation "measure (\<lambda>(m, len, table_count_m, type, pos, table_index). len - pos)")
  show "wf (measure (\<lambda>(m, len, table_count_m, type, pos, table_index). len - pos))" by simp
next
  fix m :: memory and len pos :: nat and table_count_m table_index :: int
    and type x xa :: "8 word"
  assume "table_index < table_count_m \<and> pos + 4 \<le> len" "xa = m (pos + 1)"
  moreover have "pos + unat xa \<le> GetTable_next m len (pos + unat xa)"
    by (rule GetTable_next_ge)
  ultimately show "((m, len, table_count_m, type, GetTable_next m len (pos + unat xa) + 2, table_index + 1),
        (m, len, table_count_m, type, pos, table_index))
       \<in> measure (\<lambda>(m, len, table_count_m, type, pos, table_index). len - pos)"
    by (simp; linarith)
qed

declare GetTable_loop.simps [simp del]

text \<open>
  \<^verbatim>\<open>SMBios::GetTable(type)\<close>, a \<^verbatim>\<open>const\<close> member function: it reads the object and
  returns the offset of the structure found (\<open>None\<close> is \<^verbatim>\<open>nullptr\<close>).
\<close>

definition GetTable :: "SMBios \<Rightarrow> 8 word \<Rightarrow> nat option" where
  "GetTable s type =
     GetTable_loop (smbios_table_data (smbios_data s)) (unat (length_field (smbios_data s)))
       (table_count s) type 0 0"

section \<open>Table: the accessors of a located structure\<close>

text \<open>
  A \<^verbatim>\<open>Table\<close> holds the pointer \<^verbatim>\<open>data_\<close> to the start of a located structure. The
  accessors are only meaningful on a valid table (\<^verbatim>\<open>IsValid\<close>), so the pointer is an
  offset here and the table carries the memory it points into.
\<close>

record Table =
  mem :: memory
  data :: nat

definition GetByte :: "'a Table_scheme \<Rightarrow> 8 word \<Rightarrow> 8 word" where
  "GetByte t offset = mem t (data t + unat offset)"

definition GetPointer :: "'a Table_scheme \<Rightarrow> 8 word \<Rightarrow> nat" where
  "GetPointer t offset = data t + unat offset"

definition GetWord :: "'a Table_scheme \<Rightarrow> 8 word \<Rightarrow> 16 word" where
  "GetWord t offset = read_u16 (mem t) (GetPointer t offset)"

definition GetQword :: "'a Table_scheme \<Rightarrow> 8 word \<Rightarrow> 64 word" where
  "GetQword t offset = read_u64 (mem t) (GetPointer t offset)"

text \<open>
  \<^verbatim>\<open>strlen\<close> scans for a zero byte and has no bound; \<open>None\<close> is a scan that never finds
  one.
\<close>

partial_function (option) strlen :: "memory \<Rightarrow> nat \<Rightarrow> nat option" where
  "strlen m s = (if m s = 0 then Some 0 else Option.bind (strlen m (s + 1)) (\<lambda>n. Some (n + 1)))"

declare strlen.simps [code]

text \<open>
  The loop of \<^verbatim>\<open>Table::GetString\<close>:
  \<^verbatim>\<open>while (handle > 1 && *string) { string += strlen(string); ++string; --handle; }\<close>
\<close>

function GetString_loop :: "memory \<Rightarrow> 8 word \<Rightarrow> nat \<Rightarrow> nat option" where
  "GetString_loop m handle string =
     (if 1 < handle \<and> m string \<noteq> 0 then
        (case strlen m string of
           None \<Rightarrow> None
         | Some n \<Rightarrow> GetString_loop m (handle - 1) (string + n + 1))
      else Some string)"
  by pat_completeness auto
termination
proof (relation "measure (\<lambda>(m, handle, string). unat handle)")
  show "wf (measure (\<lambda>(m, handle, string). unat handle))" by simp
next
  fix m :: memory and handle :: "8 word" and string n :: nat
  assume a: "1 < handle \<and> m string \<noteq> 0"
  then have "1 \<le> handle" by (simp add: order_less_imp_le)
  then have "unat (handle - 1) = unat handle - 1" by (simp add: unat_sub)
  moreover from a have "0 < unat handle"
    by (simp add: word_less_nat_alt)
  ultimately show "((m, handle - 1, string + n + 1), (m, handle, string))
      \<in> measure (\<lambda>(m, handle, string). unat handle)" by simp
qed

declare GetString_loop.simps [simp del]

text \<open>The \<^verbatim>\<open>std::string\<close> built from a \<^verbatim>\<open>char*\<close>: the bytes up to the first zero byte.\<close>

definition std_string :: "memory \<Rightarrow> nat \<Rightarrow> string option" where
  "std_string m s =
     (case strlen m s of
        None \<Rightarrow> None
      | Some n \<Rightarrow> Some (map (\<lambda>i. char_of (unat (m (s + i)))) [0..<n]))"

text \<open>\<^verbatim>\<open>Table::GetString\<close>. The string list starts at \<^verbatim>\<open>data_ + data_[1]\<close>.\<close>

definition GetString :: "'a Table_scheme \<Rightarrow> 8 word \<Rightarrow> string option" where
  "GetString t offset =
     (let handle = GetByte t offset in
      if handle = 0 then Some []
      else
        (case GetString_loop (mem t) handle (data t + unat (mem t (data t + 1))) of
           None \<Rightarrow> None
         | Some string \<Rightarrow>
             if mem t string = 0 \<or> mem t string = 0 then Some []
             else std_string (mem t) string))"

text \<open>
  Modelled from the spec: \<^verbatim>\<open>FeatureList\<close> is declared in \<^verbatim>\<open>base/devices/smbios.h\<close>,
  which is not among the sources; the specification describes it as an ordered sequence of
  (label, supported) pairs. \<^verbatim>\<open>emplace_back\<close> appends at the end.
\<close>

type_synonym FeatureList = "(string \<times> bool) list"

section \<open>BiosTable\<close>

text \<open>
  \<^verbatim>\<open>BiosTable::GetRuntimeSize\<close>. \<^verbatim>\<open>code\<close> is a \<^verbatim>\<open>uint32_t\<close>; the function returns
  \<^verbatim>\<open>int\<close>, so the 32-bit value is read as two's complement on return.
\<close>

definition GetRuntimeSize :: "Table \<Rightarrow> int" where
  "GetRuntimeSize t =
     (let address = GetWord t 0x06 in
      if address = 0 then 0
      else
        let code = (push_bit 4 (0x10000 - ucast address) :: 32 word) in
        if code AND 0x000003FF \<noteq> 0 then sint code
        else sint (drop_bit 10 code * 1024))"

definition characteristics_names :: "string list" where
  \<open>characteristics_names =
     [''BIOS characteristics not supported'',
      ''ISA'',
      ''MCA'',
      ''EISA'',
      ''PCI'',
      ''PC Card (PCMCIA)'',
      ''PNP'',
      ''APM'',
      ''BIOS is upgradeable'',
      ''BIOS shadowing'',
      ''VLB'',
      ''ESCD'',
      ''Boot from CD'',
      ''Selectable boot'',
      ''BIOS ROM is socketed'',
      ''Boot from PC Card (PCMCIA)'',
      ''EDD'',
      ''Japanese floppy for NEC 9800 1.2 MB (int 13h)'',
      ''Japanese floppy for Toshiba 1.2 MB (int 13h)'',
      ''5.25"/360 kB floppy (int 13h)'',
      ''5.25"/1.2 MB floppy (int 13h)'',
      ''3.5"/720 kB floppy (int 13h)'',
      ''3.5"/2.88 MB floppy (int 13h)'',
      ''Print screen (int 5h)'',
      ''8042 keyboard (int 9h)'',
      ''Serial (int 14h)'',
      ''Printer (int 17h)'',
      ''CGA/mono video (int 10h)'',
      ''NEC PC-98'']\<close>

definition characteristics1_names :: "string list" where
  "characteristics1_names =
     [''ACPI'',
      ''USB legacy'',
      ''AGP'',
      ''I2O boot'',
      ''LS-120 boot'',
      ''ATAPI Zip drive boot'',
      ''IEEE 1394 boot'',
      ''Smart battery'']"

definition characteristics2_names :: "string list" where
  "characteristics2_names =
     [''BIOS boot specification'',
      ''Function key-initiated network boot'',
      ''Targeted content distribution'']"

text \<open>
  The three \<^verbatim>\<open>for\<close> statements of \<^verbatim>\<open>BiosTable::GetCharacteristics\<close>:
  \<^verbatim>\<open>for (int i = 4; i <= 31; ++i)\<close> with \<^verbatim>\<open>characteristics & (1ULL << i)\<close> and the label
  \<^verbatim>\<open>characteristics_names[i - 3]\<close>, then \<^verbatim>\<open>for (int i = 0; i <= 7; ++i)\<close> and
  \<^verbatim>\<open>for (int i = 0; i <= 2; ++i)\<close> on the two extension bytes.
\<close>

function characteristics_loop :: "64 word \<Rightarrow> nat \<Rightarrow> FeatureList \<Rightarrow> FeatureList" where
  "characteristics_loop characteristics i feature_list =
     (if i \<le> 31 then
        characteristics_loop characteristics (i + 1)
          (feature_list @ [(characteristics_names ! (i - 3), characteristics AND push_bit i 1 \<noteq> 0)])
      else feature_list)"
  by pat_completeness auto
termination
  by (relation "measure (\<lambda>(characteristics, i, feature_list). 32 - i)") auto

function characteristics1_loop :: "8 word \<Rightarrow> nat \<Rightarrow> FeatureList \<Rightarrow> FeatureList" where
  "characteristics1_loop characteristics1 i feature_list =
     (if i \<le> 7 then
        characteristics1_loop characteristics1 (i + 1)
          (feature_list @ [(characteristics1_names ! i, characteristics1 AND push_bit i 1 \<noteq> 0)])
      else feature_list)"
  by pat_completeness auto
termination
  by (relation "measure (\<lambda>(characteristics1, i, feature_list). 8 - i)") auto

function characteristics2_loop :: "8 word \<Rightarrow> nat \<Rightarrow> FeatureList \<Rightarrow> FeatureList" where
  "characteristics2_loop characteristics2 i feature_list =
     (if i \<le> 2 then
        characteristics2_loop characteristics2 (i + 1)
          (feature_list @ [(characteristics2_names ! i, characteristics2 AND push_bit i 1 \<noteq> 0)])
      else feature_list)"
  by pat_completeness auto
termination
  by (relation "measure (\<lambda>(characteristics2, i, feature_list). 3 - i)") auto

declare characteristics_loop.simps [simp del]
declare characteristics1_loop.simps [simp del]
declare characteristics2_loop.simps [simp del]

text \<open>
  \<^verbatim>\<open>BiosTable::GetCharacteristics\<close>. The test \<^verbatim>\<open>!(characteristics & (1 << 3))\<close> guards the
  first loop only; the two tests of \<^verbatim>\<open>table_length\<close> follow it unconditionally.
\<close>

definition GetCharacteristics :: "Table \<Rightarrow> FeatureList" where
  "GetCharacteristics t =
     (let characteristics = GetQword t 0x0A;
          feature_list0 =
            (if characteristics AND push_bit 3 1 = 0
             then characteristics_loop characteristics 4 []
             else []);
          table_length = GetByte t 0x01;
          feature_list1 =
            (if 0x13 \<le> table_length
             then characteristics1_loop (GetByte t 0x12) 0 feature_list0
             else feature_list0);
          feature_list2 =
            (if 0x14 \<le> table_length
             then characteristics2_loop (GetByte t 0x13) 0 feature_list1
             else feature_list1)
      in feature_list2)"

section \<open>SystemTable\<close>

text \<open>
  A \<^verbatim>\<open>SystemTable\<close> is a \<^verbatim>\<open>Table\<close> with the members \<^verbatim>\<open>major_version_\<close> and
  \<^verbatim>\<open>minor_version_\<close>.
\<close>

record SystemTable = Table +
  major_version :: "8 word"
  minor_version :: "8 word"

text \<open>
  The loop of \<^verbatim>\<open>SystemTable::GetUUID\<close>:
  \<^verbatim>\<open>for (int i = 0; i < 16 && (only_0x00 || only_0xFF); ++i)\<close>. The result is the pair
  (\<^verbatim>\<open>only_0xFF\<close>, \<^verbatim>\<open>only_0x00\<close>).
\<close>

function GetUUID_loop :: "memory \<Rightarrow> nat \<Rightarrow> nat \<Rightarrow> bool \<Rightarrow> bool \<Rightarrow> bool \<times> bool" where
  "GetUUID_loop m ptr i only_0xFF only_0x00 =
     (if i < 16 \<and> (only_0x00 \<or> only_0xFF) then
        GetUUID_loop m ptr (i + 1)
          (if m (ptr + i) \<noteq> 0xFF then False else only_0xFF)
          (if m (ptr + i) \<noteq> 0x00 then False else only_0x00)
      else (only_0xFF, only_0x00))"
  by pat_completeness auto
termination
  by (relation "measure (\<lambda>(m, ptr, i, only_0xFF, only_0x00). 16 - i)") auto

declare GetUUID_loop.simps [simp del]

text \<open>
  Modelled from the spec: \<^verbatim>\<open>StringPrintf\<close> is declared in
  \<^verbatim>\<open>base/strings/string_util.h\<close>, which is not among the sources. It formats as
  \<^verbatim>\<open>printf\<close> does: \<^verbatim>\<open>%02X\<close> prints a byte as two upper-case hexadecimal digits, which
  is what the specification's examples of a formatted UUID show. \<open>StringPrintf_uuid\<close> is the
  call with the format string of \<^verbatim>\<open>GetUUID\<close>, sixteen \<^verbatim>\<open>%02X\<close> in groups of
  4, 2, 2, 2 and 6 bytes separated by \<^verbatim>\<open>-\<close>, and its sixteen arguments.
\<close>

definition hex_digit :: "nat \<Rightarrow> char" where
  "hex_digit d = ''0123456789ABCDEF'' ! d"

definition format_02X :: "8 word \<Rightarrow> string" where
  "format_02X b = [hex_digit (unat b div 16), hex_digit (unat b mod 16)]"

fun StringPrintf_uuid :: "8 word list \<Rightarrow> string" where
  "StringPrintf_uuid [a0, a1, a2, a3, a4, a5, a6, a7, a8, a9, a10, a11, a12, a13, a14, a15] =
     format_02X a0 @ format_02X a1 @ format_02X a2 @ format_02X a3 @ ''-'' @
     format_02X a4 @ format_02X a5 @ ''-'' @ format_02X a6 @ format_02X a7 @ ''-'' @
     format_02X a8 @ format_02X a9 @ ''-'' @
     format_02X a10 @ format_02X a11 @ format_02X a12 @ format_02X a13 @
     format_02X a14 @ format_02X a15"
| "StringPrintf_uuid args = []"

text \<open>\<^verbatim>\<open>SystemTable::GetUUID\<close>. The version test is evaluated in \<^verbatim>\<open>int\<close>.\<close>

definition GetUUID :: "SystemTable \<Rightarrow> string" where
  "GetUUID t =
     (let table_length = GetByte t 0x01 in
      if table_length < 0x19 then []
      else
        let ptr = GetPointer t 0x08;
            m = mem t;
            flags = GetUUID_loop m ptr 0 True True;
            only_0xFF = fst flags;
            only_0x00 = snd flags
        in
          if only_0xFF \<or> only_0x00 then []
          else if 0x0206 \<le> push_bit 8 (uint (major_version t)) + uint (minor_version t) then
            StringPrintf_uuid
              [m (ptr + 3), m (ptr + 2), m (ptr + 1), m (ptr + 0), m (ptr + 5), m (ptr + 4),
               m (ptr + 7), m (ptr + 6), m (ptr + 8), m (ptr + 9), m (ptr + 10), m (ptr + 11),
               m (ptr + 12), m (ptr + 13), m (ptr + 14), m (ptr + 15)]
          else
            StringPrintf_uuid
              [m (ptr + 0), m (ptr + 1), m (ptr + 2), m (ptr + 3), m (ptr + 4), m (ptr + 5),
               m (ptr + 6), m (ptr + 7), m (ptr + 8), m (ptr + 9), m (ptr + 10), m (ptr + 11),
               m (ptr + 12), m (ptr + 13), m (ptr + 14), m (ptr + 15)])"

section \<open>BaseboardTable\<close>

definition feature_names :: "string list" where
  "feature_names =
     [''Board is a hosting board'',
      ''Board requires at least one daughter board'',
      ''Board is removable'',
      ''Board is replaceable'',
      ''Board is hot swappable'']"

text \<open>The loop of \<^verbatim>\<open>BaseboardTable::GetFeatures\<close>: \<^verbatim>\<open>for (int i = 0; i <= 4; ++i)\<close>.\<close>

function features_loop :: "8 word \<Rightarrow> nat \<Rightarrow> FeatureList \<Rightarrow> FeatureList" where
  "features_loop features i list =
     (if i \<le> 4 then
        features_loop features (i + 1)
          (list @ [(feature_names ! i, features AND push_bit i 1 \<noteq> 0)])
      else list)"
  by pat_completeness auto
termination
  by (relation "measure (\<lambda>(features, i, list). 5 - i)") auto

declare features_loop.simps [simp del]

text \<open>\<^verbatim>\<open>BaseboardTable::GetFeatures\<close>.\<close>

definition GetFeatures :: "Table \<Rightarrow> FeatureList" where
  "GetFeatures t =
     (let table_length = GetByte t 0x01 in
      if table_length < 0x0A then []
      else
        let features = GetByte t 0x09 in
        if features AND 0x1F = 0 then []
        else features_loop features 0 [])"

section \<open>The wire format of a wellformed blob\<close>

text \<open>
  The claims about wellformed blobs need the format the walk is meant for. A structure has
  a type code, a declared length (the four header bytes and the formatted area), a handle,
  and a list of strings, each non-empty, free of zero bytes and followed by a zero byte.
  The list ends with one more zero byte; an empty list is two zero bytes. In both cases
  the string list ends with two consecutive zero bytes and holds no such pair before.
\<close>

record smbios_structure =
  stype :: "8 word"
  shandle :: "16 word"
  formatted :: "8 word list"
  strings :: "8 word list list"

definition wellformed_string :: "8 word list \<Rightarrow> bool" where
  "wellformed_string s \<longleftrightarrow> s \<noteq> [] \<and> 0 \<notin> set s"

definition declared_length :: "smbios_structure \<Rightarrow> nat" where
  "declared_length s = 4 + length (formatted s)"

text \<open>The declared length is a byte; it is at least 4 by construction.\<close>

definition wellformed_structure :: "smbios_structure \<Rightarrow> bool" where
  "wellformed_structure s \<longleftrightarrow>
     declared_length s \<le> 255 \<and> list_all wellformed_string (strings s)"

fun string_list :: "8 word list list \<Rightarrow> 8 word list" where
  "string_list [] = [0]"
| "string_list (s # ss) = s @ [0] @ string_list ss"

definition encode_strings :: "8 word list list \<Rightarrow> 8 word list" where
  "encode_strings ss = (if ss = [] then [0, 0] else string_list ss)"

definition encode_structure :: "smbios_structure \<Rightarrow> 8 word list" where
  "encode_structure s =
     [stype s, of_nat (declared_length s), ucast (shandle s), ucast (drop_bit 8 (shandle s))]
     @ formatted s @ encode_strings (strings s)"

definition encode_blob :: "smbios_structure list \<Rightarrow> 8 word list" where
  "encode_blob ss = concat (map encode_structure ss)"

text \<open>The bytes \<open>bs\<close> are in memory from offset \<open>pos\<close> on.\<close>

fun stored_at :: "memory \<Rightarrow> nat \<Rightarrow> 8 word list \<Rightarrow> bool" where
  "stored_at m pos [] = True"
| "stored_at m pos (b # bs) = (m pos = b \<and> stored_at m (pos + 1) bs)"

text \<open>
  The specification's \<^verbatim>\<open>locate\<close> on the list of structures: the offset of the first
  structure of the target type, unless the end-of-table marker comes before it.
\<close>

fun locate_spec :: "smbios_structure list \<Rightarrow> 8 word \<Rightarrow> nat \<Rightarrow> nat option" where
  "locate_spec [] type offset = None"
| "locate_spec (s # ss) type offset =
     (if stype s = type then Some offset
      else if stype s = TABLE_TYPE_END_OF_TABLE then None
      else locate_spec ss type (offset + length (encode_structure s)))"

text \<open>The sixteen bytes of the UUID field, at the offsets 0x08 to 0x17 of a structure.\<close>

definition uuid_bytes :: "SystemTable \<Rightarrow> 8 word list" where
  "uuid_bytes t = map (\<lambda>i. mem t (data t + 8 + i)) [0..<16]"

text \<open>The order in which \<^verbatim>\<open>GetUUID\<close> passes the bytes from version 2.6 on.\<close>

definition uuid_order :: "nat list" where
  "uuid_order = [3, 2, 1, 0, 5, 4, 7, 6, 8, 9, 10, 11, 12, 13, 14, 15]"

section \<open>Example inputs\<close>

text \<open>
  Three wellformed structures: a BIOS structure (type 0) with two formatted bytes and the
  strings "AB" and "C", a System structure (type 1) without strings, and the end-of-table
  marker. Encoded they take 12, 6 and 6 bytes.
\<close>

definition example_structures :: "smbios_structure list" where
  "example_structures =
     [\<lparr>stype = 0, shandle = 0x0100, formatted = [1, 2], strings = [ [0x41, 0x42], [0x43] ]\<rparr>,
      \<lparr>stype = 1, shandle = 0x0101, formatted = [], strings = []\<rparr>,
      \<lparr>stype = 0x7F, shandle = 0x0102, formatted = [], strings = []\<rparr>]"

definition example_data :: SMBiosData where
  "example_data =
     \<lparr>smbios_major_version = 2, smbios_minor_version = 6, length_field = 24,
      smbios_table_data = memory_of (encode_blob example_structures)\<rparr>"

text \<open>
  A blob of twelve bytes: a wellformed structure of type 0 and, at offset 6, a structure of
  type 1 whose declared length is 3.
\<close>

definition example_malformed :: SMBiosData where
  "example_malformed =
     \<lparr>smbios_major_version = 2, smbios_minor_version = 6, length_field = 12,
      smbios_table_data = memory_of [0, 4, 0, 0, 0, 0, 1, 3, 0, 0, 0, 0]\<rparr>"

text \<open>
  A structure with declared length 6 whose bytes at the offsets 4 and 5 are the string
  references 1 and 3, followed by the two strings "AB" and "C".
\<close>

definition example_two_strings :: Table where
  "example_two_strings =
     \<lparr>mem = memory_of [1, 6, 0, 0, 1, 3, 0x41, 0x42, 0, 0x43, 0, 0], data = 0\<rparr>"

text \<open>
  System structures whose UUID field holds the bytes 01 to 10 (hexadecimal): one with the
  declared length 0x19, one with the declared length 0x18, which still covers the offsets
  0x08 to 0x17 of the UUID.
\<close>

definition example_system :: "8 word \<Rightarrow> 8 word \<Rightarrow> 8 word \<Rightarrow> SystemTable" where
  "example_system table_length major minor =
     \<lparr>mem = memory_of ([1, table_length, 0, 0, 1, 2, 3, 4,
                         1, 2, 3, 4, 5, 6, 7, 8, 9, 10, 11, 12, 13, 14, 15, 16, 6, 0, 0]),
      data = 0, major_version = major, minor_version = minor\<rparr>"

text \<open>
  A BIOS structure with declared length 0x14 whose characteristics word is 8 (only bit 3,
  "characteristics not supported", is set) and whose extension bytes are 3 and 1.
\<close>

definition example_bios_unsupported :: Table where
  "example_bios_unsupported =
     \<lparr>mem = memory_of [0, 0x14, 0, 0, 1, 2, 0, 0xE0, 3, 7, 0x08, 0, 0, 0, 0, 0, 0, 0,
                        0x03, 0x01, 0, 0],
      data = 0\<rparr>"

text \<open>A Baseboard structure with declared length 0x0F and the feature byte 0x20.\<close>

definition example_baseboard :: Table where
  "example_baseboard =
     \<lparr>mem = memory_of [2, 0x0F, 0, 0, 1, 2, 3, 4, 0, 0x20, 0, 0, 0, 0, 0, 0, 0], data = 0\<rparr>"

text \<open>
  A header that declares the largest region length, 0xFFFFFFFF, over memory that holds
  zero bytes only; with the eight bytes of the header the buffer takes 0x100000007 bytes.
\<close>

definition example_zero_region :: SMBiosData where
  "example_zero_region =
     \<lparr>smbios_major_version = 2, smbios_minor_version = 6, length_field = 0xFFFFFFFF,
      smbios_table_data = memory_of []\<rparr>"

text \<open>A BIOS structure whose starting address segment, at offset 6, is 0xF000.\<close>

definition example_bios_runtime :: Table where
  "example_bios_runtime = \<lparr>mem = memory_of [0, 0x18, 0, 0, 1, 2, 0x00, 0xF0], data = 0\<rparr>"


section \<open>Facts about words\<close>

lemma ucast_8_16_eq_0: "(ucast (b :: 8 word) :: 16 word) = 0 \<longleftrightarrow> b = 0"
proof
  assume a: "(ucast b :: 16 word) = 0"
  show "b = 0"
  proof (rule bit_eqI)
    fix n
    assume "possible_bit TYPE(8 word) n"
    then have n: "n < 8" by (simp add: possible_bit_def)
    from a have "bit (ucast b :: 16 word) n = bit (0 :: 16 word) n" by simp
    with n show "bit b n = bit (0 :: 8 word) n"
      by (simp add: bit_simps)
  qed
qed simp

lemma push_ucast_8_16_eq_0: "push_bit 8 (ucast (b :: 8 word) :: 16 word) = 0 \<longleftrightarrow> b = 0"
proof
  assume a: "push_bit 8 (ucast b :: 16 word) = 0"
  show "b = 0"
  proof (rule bit_eqI)
    fix n
    assume "possible_bit TYPE(8 word) n"
    then have n: "n < 8" by (simp add: possible_bit_def)
    from a have "bit (push_bit 8 (ucast b :: 16 word)) (n + 8) = bit (0 :: 16 word) (n + 8)"
      by simp
    with n show "bit b n = bit (0 :: 8 word) n"
      by (simp add: bit_simps)
  qed
qed simp

lemma read_u16_eq_0: "read_u16 m pos = 0 \<longleftrightarrow> m pos = 0 \<and> m (pos + 1) = 0"
  by (simp add: read_u16_def or_eq_0_iff ucast_8_16_eq_0 push_ucast_8_16_eq_0)

lemma kilobytes_back: "(code :: 32 word) AND 0x3FF = 0 \<Longrightarrow> drop_bit 10 code * 1024 = code"
proof -
  assume a: "code AND 0x3FF = 0"
  have m: "(0x3FF :: 32 word) = mask 10" by (simp add: mask_eq_exp_minus_1)
  from a have "take_bit 10 code = 0" by (simp add: m take_bit_eq_mask)
  then have "push_bit 10 (drop_bit 10 code) = code"
    using bits_ident [of 10 code] by simp
  then show ?thesis by (simp add: push_bit_eq_mult)
qed

lemma runtime_code_value:
  "address \<noteq> 0 \<Longrightarrow>
   sint (push_bit 4 (0x10000 - ucast (address :: 16 word)) :: 32 word) = (0x10000 - uint address) * 16"
proof -
  assume "address \<noteq> 0"
  then have pos: "0 < uint address" by (simp add: word_neq_0_conv word_less_def)
  have lt: "uint address < 65536" using uint_bounded [of address] by simp
  have u: "(ucast address :: 32 word) = word_of_int (uint address)" by simp
  have "(push_bit 4 (0x10000 - ucast address) :: 32 word) = word_of_int ((65536 - uint address) * 16)"
    unfolding u by (simp add: push_bit_eq_mult)
  moreover have "sint (word_of_int ((65536 - uint address) * 16) :: 32 word) = (65536 - uint address) * 16"
    unfolding sint_sbintrunc' using pos lt by (intro signed_take_bit_int_eq_self) simp_all
  ultimately show ?thesis by simp
qed

lemma bit_test_eq: "(w AND push_bit i 1 \<noteq> 0) = bit w i"
  for w :: "'a::len word"
  by (simp add: bit_iff_and_push_bit_not_eq_0)

lemma bit_test_eq': "(w AND 2 ^ i \<noteq> 0) = bit w i"
  for w :: "'a::len word"
  using bit_test_eq [of w i] by simp

section \<open>Wellformed blobs in memory\<close>

lemma stored_at_append:
  "stored_at m pos (xs @ ys) \<longleftrightarrow> stored_at m pos xs \<and> stored_at m (pos + length xs) ys"
  by (induction xs arbitrary: pos) auto

lemma stored_at_nth: "stored_at m pos bs \<Longrightarrow> i < length bs \<Longrightarrow> m (pos + i) = bs ! i"
proof (induction bs arbitrary: pos i)
  case Nil
  then show ?case by simp
next
  case (Cons b bs)
  show ?case
  proof (cases i)
    case 0
    with Cons.prems show ?thesis by simp
  next
    case (Suc j)
    with Cons.prems have "m (pos + 1 + j) = bs ! j"
      by (intro Cons.IH) simp_all
    with Suc show ?thesis by simp
  qed
qed

lemma stored_at_memory_of: "stored_at (memory_of (pre @ bs @ post)) (length pre) bs"
proof -
  have "stored_at (memory_of (pre @ bs @ post)) (length pre + k) (drop k bs)" if "k \<le> length bs" for k
    using that
  proof (induction "length bs - k" arbitrary: k)
    case 0
    then show ?case by simp
  next
    case (Suc n)
    then have k: "k < length bs" by simp
    then have d: "drop k bs = bs ! k # drop (Suc k) bs"
      by (simp add: Cons_nth_drop_Suc)
    have "stored_at (memory_of (pre @ bs @ post)) (length pre + Suc k) (drop (Suc k) bs)"
      using Suc k by (intro Suc.hyps(1)) simp_all
    moreover have "memory_of (pre @ bs @ post) (length pre + k) = bs ! k"
      using k by (simp add: memory_of_def nth_append)
    ultimately show ?case by (simp add: d)
  qed
  from this [of 0] show ?thesis by simp
qed

text \<open>The string scan of GetTableCount stops at the first pair of zero bytes.\<close>

lemma GetTableCount_strings_stop:
  assumes "pos \<le> z" "z \<le> endp" "m z = 0" "m (z + 1) = 0"
    and "\<And>q. pos \<le> q \<Longrightarrow> q < z \<Longrightarrow> m q \<noteq> 0 \<or> m (q + 1) \<noteq> 0"
  shows "fst (GetTableCount_strings m endp pos reads) = z"
  using assms
proof (induction "z - pos" arbitrary: pos reads)
  case 0
  then have "pos = z" by simp
  with "0.prems" show ?case
    by (subst GetTableCount_strings.simps) (simp add: read_u16_eq_0)
next
  case (Suc n)
  then have lt: "pos < z" by simp
  with Suc.prems have nz: "read_u16 m pos \<noteq> 0"
    by (simp add: read_u16_eq_0)
  have "fst (GetTableCount_strings m endp (pos + 1) (reads @ [pos, pos + 1])) = z"
    using Suc.hyps(2) Suc.prems lt by (intro Suc.hyps(1)) simp_all
  with nz lt Suc.prems(2) show ?case
    by (subst GetTableCount_strings.simps) simp
qed

lemma string_list_nonempty: "string_list ss \<noteq> []"
  by (cases ss) simp_all

text \<open>Where the first pair of zero bytes of a stored string list is.\<close>

lemma string_list_terminator:
  assumes "stored_at m pos (string_list ss)" "list_all wellformed_string ss" "ss \<noteq> []"
  shows "m (pos + length (string_list ss) - 2) = 0 \<and> m (pos + length (string_list ss) - 1) = 0
    \<and> (\<forall>q. pos \<le> q \<and> q < pos + length (string_list ss) - 2 \<longrightarrow> m q \<noteq> 0 \<or> m (q + 1) \<noteq> 0)"
  using assms
proof (induction ss arbitrary: pos)
  case Nil
  then show ?case by simp
next
  case (Cons s ss)
  from Cons.prems have s: "s \<noteq> []" "0 \<notin> set s"
    by (simp_all add: wellformed_string_def)
  from Cons.prems have st: "stored_at m pos s" "m (pos + length s) = 0"
    "stored_at m (pos + length s + 1) (string_list ss)"
    by (simp_all add: stored_at_append)
  have inside: "m q \<noteq> 0" if "pos \<le> q" "q < pos + length s" for q
  proof -
    from that have "m (pos + (q - pos)) = s ! (q - pos)"
      by (intro stored_at_nth [OF st(1)]) simp
    moreover have "s ! (q - pos) \<in> set s" using that by simp
    ultimately show ?thesis using s(2) that by (metis le_add_diff_inverse)
  qed
  show ?case
  proof (cases "ss = []")
    case True
    with st have "m (pos + length s + 1) = 0" by simp
    with True st(2) inside s show ?thesis by (auto simp: Suc_diff_Suc)
  next
    case False
    then obtain s' ss' where ss: "ss = s' # ss'" by (cases ss) auto
    with Cons.prems have "s' \<noteq> []" "0 \<notin> set s'" by (simp_all add: wellformed_string_def)
    then obtain a s'' where s': "s' = a # s''" "a \<noteq> 0" by (cases s') auto
    with st(3) ss have next_nz: "m (pos + length s + 1) \<noteq> 0" by simp
    from Cons.prems False have ih:
      "m (pos + length s + 1 + length (string_list ss) - 2) = 0
       \<and> m (pos + length s + 1 + length (string_list ss) - 1) = 0
       \<and> (\<forall>q. pos + length s + 1 \<le> q \<and> q < pos + length s + 1 + length (string_list ss) - 2
            \<longrightarrow> m q \<noteq> 0 \<or> m (q + 1) \<noteq> 0)"
      by (intro Cons.IH [OF st(3)]) simp_all
    have len: "2 \<le> length (string_list ss)" using ss s' by simp
    have e: "pos + length (string_list (s # ss)) = pos + length s + 1 + length (string_list ss)"
      by simp
    show ?thesis
      unfolding e
    proof (intro conjI allI impI)
      show "m (pos + length s + 1 + length (string_list ss) - 2) = 0" using ih by blast
      show "m (pos + length s + 1 + length (string_list ss) - 1) = 0" using ih by blast
      fix q
      assume q: "pos \<le> q \<and> q < pos + length s + 1 + length (string_list ss) - 2"
      consider "q < pos + length s" | "q = pos + length s" | "pos + length s + 1 \<le> q" by linarith
      then show "m q \<noteq> 0 \<or> m (q + 1) \<noteq> 0"
      proof cases
        case 1
        with q inside show ?thesis by simp
      next
        case 2
        with next_nz show ?thesis by simp
      next
        case 3
        with q ih show ?thesis by blast
      qed
    qed
  qed
qed


lemma encode_strings_terminator:
  assumes "stored_at m pos (encode_strings ss)" "list_all wellformed_string ss"
  shows "2 \<le> length (encode_strings ss)
    \<and> m (pos + length (encode_strings ss) - 2) = 0 \<and> m (pos + length (encode_strings ss) - 1) = 0
    \<and> (\<forall>q. pos \<le> q \<and> q < pos + length (encode_strings ss) - 2 \<longrightarrow> m q \<noteq> 0 \<or> m (q + 1) \<noteq> 0)"
proof (cases "ss = []")
  case True
  with assms show ?thesis by (auto simp: encode_strings_def)
next
  case False
  then obtain s ss' where ss: "ss = s # ss'" by (cases ss) auto
  have "2 \<le> length (string_list ss)"
    using string_list_nonempty [of ss'] by (cases "string_list ss'") (simp_all add: ss)
  moreover from assms False have "stored_at m pos (string_list ss)" by (simp add: encode_strings_def)
  ultimately show ?thesis
    using string_list_terminator [of m pos ss] assms(2) False by (simp add: encode_strings_def)
qed

lemma length_encode_structure:
  "length (encode_structure s) = declared_length s + length (encode_strings (strings s))"
  by (simp add: encode_structure_def declared_length_def)

lemma encode_structure_header:
  assumes "stored_at m pos (encode_structure s)" "wellformed_structure s"
  shows "m pos = stype s" "unat (m (pos + 1)) = declared_length s"
    "stored_at m (pos + declared_length s) (encode_strings (strings s))"
proof -
  from assms(1) show "m pos = stype s" by (simp add: encode_structure_def)
  from assms(1) have "m (pos + 1) = of_nat (declared_length s)" by (simp add: encode_structure_def)
  moreover from assms(2) have "declared_length s \<le> 255" by (simp add: wellformed_structure_def)
  ultimately show "unat (m (pos + 1)) = declared_length s"
    by (simp add: unat_of_nat)
  have e: "pos + declared_length s = Suc (Suc (Suc (Suc (pos + length (formatted s)))))"
    by (simp add: declared_length_def)
  from assms(1)
  have "stored_at m (Suc (Suc (Suc (Suc (pos + length (formatted s)))))) (encode_strings (strings s))"
    by (simp add: encode_structure_def stored_at_append)
  then show "stored_at m (pos + declared_length s) (encode_strings (strings s))"
    by (simp only: e)
qed

lemma GetTableCount_loop_structure:
  assumes "wellformed_structure s" "stored_at m pos (encode_structure s)"
    and "pos + length (encode_structure s) \<le> endp"
  shows "\<exists>reads'. GetTableCount_loop m endp pos count reads =
     GetTableCount_loop m endp (pos + length (encode_structure s)) (count + 1) reads'"
proof -
  let ?L = "declared_length s"
  let ?n = "length (encode_strings (strings s))"
  note h = encode_structure_header [OF assms(2) assms(1)]
  from assms(1) have wf: "list_all wellformed_string (strings s)"
    by (simp add: wellformed_structure_def)
  note t = encode_strings_terminator [OF h(3) wf]
  from t have n2: "2 \<le> ?n" by blast
  have lt: "pos < endp" using assms(3) n2 by (simp add: length_encode_structure)
  have "fst (GetTableCount_strings m endp (pos + ?L) (reads @ [pos + 1])) = pos + ?L + ?n - 2"
  proof (rule GetTableCount_strings_stop)
    show "pos + ?L \<le> pos + ?L + ?n - 2" using n2 by simp
    show "pos + ?L + ?n - 2 \<le> endp" using assms(3) by (simp add: length_encode_structure)
    show "m (pos + ?L + ?n - 2) = 0" using t by blast
    have "pos + ?L + ?n - 2 + 1 = pos + ?L + ?n - 1" using n2 by simp
    then show "m (pos + ?L + ?n - 2 + 1) = 0" using t by simp
    show "m q \<noteq> 0 \<or> m (q + 1) \<noteq> 0" if "pos + ?L \<le> q" "q < pos + ?L + ?n - 2" for q
      using t that by blast
  qed
  then have "fst (GetTableCount_strings m endp (pos + ?L) (reads @ [pos + 1])) + 2
      = pos + length (encode_structure s)"
    using n2 by (simp add: length_encode_structure)
  with lt h(2) show ?thesis
    by (subst GetTableCount_loop.simps) (auto simp: Let_def)
qed

lemma GetTableCount_loop_blob:
  assumes "list_all wellformed_structure ss" "stored_at m pos (encode_blob ss)"
    and "pos + length (encode_blob ss) = endp"
  shows "fst (GetTableCount_loop m endp pos count reads) = count + length ss"
  using assms
proof (induction ss arbitrary: pos count reads)
  case Nil
  then show ?case by (subst GetTableCount_loop.simps) (simp add: encode_blob_def)
next
  case (Cons s ss)
  let ?k = "length (encode_structure s)"
  from Cons.prems have wf: "wellformed_structure s" and wfs: "list_all wellformed_structure ss"
    by simp_all
  from Cons.prems(2) have st: "stored_at m pos (encode_structure s)"
    and sts: "stored_at m (pos + ?k) (encode_blob ss)"
    by (simp_all add: encode_blob_def stored_at_append)
  from Cons.prems(3) have e: "pos + ?k + length (encode_blob ss) = endp"
    by (simp add: encode_blob_def)
  then have "pos + ?k \<le> endp" by simp
  from GetTableCount_loop_structure [OF wf st this] obtain reads' where
    "GetTableCount_loop m endp pos count reads = GetTableCount_loop m endp (pos + ?k) (count + 1) reads'"
    by blast
  moreover have "fst (GetTableCount_loop m endp (pos + ?k) (count + 1) reads') = count + 1 + length ss"
    by (rule Cons.IH [OF wfs sts e])
  ultimately show ?case by simp
qed

lemma length_encode_blob_ge:
  "list_all wellformed_structure ss \<Longrightarrow> 6 * length ss \<le> length (encode_blob ss)"
proof (induction ss)
  case Nil
  then show ?case by simp
next
  case (Cons s ss)
  have "2 \<le> length (encode_strings (strings s))"
    using string_list_nonempty [of "tl (strings s)"]
    by (cases "strings s") (simp_all add: encode_strings_def Suc_le_eq)
  then have "6 \<le> length (encode_structure s)"
    by (simp add: length_encode_structure declared_length_def)
  with Cons show ?case by (simp add: encode_blob_def)
qed

lemma GetTableCount_blob:
  assumes "list_all wellformed_structure ss" "stored_at table_data 0 (encode_blob ss)"
    and "unat len = length (encode_blob ss)"
  shows "GetTableCount table_data len = int (length ss)"
proof -
  have c: "fst (GetTableCount_loop table_data (unat len) 0 0 []) = length ss"
    using GetTableCount_loop_blob [OF assms(1,2), of "unat len" 0 "[]"] assms(3) by simp
  have "unat len < 2 ^ 32" using unsigned_less [of len] by simp
  with length_encode_blob_ge [OF assms(1)] assms(3) have n: "length ss < 2 ^ 31" by simp
  have "sint (word_of_nat (length ss) :: 32 word) = int (length ss)"
    using n by (simp add: signed_of_nat signed_take_bit_int_eq_self)
  then show ?thesis by (simp add: GetTableCount_def c)
qed

section \<open>The offsets the count walk reads on a wellformed blob\<close>

text \<open>
  On a wellformed blob whose last structure ends with the region, every offset the count
  walk dereferences lies inside the region.
\<close>

lemma GetTableCount_strings_reads:
  "set (snd (GetTableCount_strings m endp pos reads))
     \<subseteq> set reads \<union> {pos .. fst (GetTableCount_strings m endp pos reads) + 1}"
proof (induction m endp pos reads rule: GetTableCount_strings.induct)
  case (1 m endp pos reads)
  show ?case
  proof (cases "read_u16 m pos \<noteq> 0 \<and> pos < endp")
    case True
    let ?r = "GetTableCount_strings m endp (pos + 1) (reads @ [pos, pos + 1])"
    have e: "GetTableCount_strings m endp pos reads = ?r"
      using True by (subst GetTableCount_strings.simps) simp
    have ge: "pos + 1 \<le> fst ?r" by (rule GetTableCount_strings_ge)
    from "1.IH" True have "set (snd ?r) \<subseteq> set (reads @ [pos, pos + 1]) \<union> {pos + 1 .. fst ?r + 1}"
      by simp
    also have "\<dots> \<subseteq> set reads \<union> {pos .. fst ?r + 1}"
      using ge by auto
    finally show ?thesis by (simp add: e)
  next
    case False
    then have "GetTableCount_strings m endp pos reads = (pos, reads @ [pos, pos + 1])"
      by (subst GetTableCount_strings.simps) auto
    then show ?thesis by auto
  qed
qed

lemma GetTableCount_loop_structure_reads:
  assumes "wellformed_structure s" "stored_at m pos (encode_structure s)"
    and "pos + length (encode_structure s) \<le> endp" "\<forall>i \<in> set reads. i < endp"
  shows "\<exists>reads'. GetTableCount_loop m endp pos count reads =
       GetTableCount_loop m endp (pos + length (encode_structure s)) (count + 1) reads'
     \<and> (\<forall>i \<in> set reads'. i < endp)"
proof -
  let ?L = "declared_length s"
  let ?n = "length (encode_strings (strings s))"
  let ?after = "GetTableCount_strings m endp (pos + ?L) (reads @ [pos + 1])"
  note h = encode_structure_header [OF assms(2) assms(1)]
  from assms(1) have wf: "list_all wellformed_string (strings s)"
    by (simp add: wellformed_structure_def)
  note t = encode_strings_terminator [OF h(3) wf]
  from t have n2: "2 \<le> ?n" by blast
  have lt: "pos < endp" using assms(3) n2 by (simp add: length_encode_structure)
  have lt1: "pos + 1 < endp"
    using assms(3) n2 by (simp add: length_encode_structure declared_length_def)
  have f: "fst ?after = pos + ?L + ?n - 2"
  proof (rule GetTableCount_strings_stop)
    show "pos + ?L \<le> pos + ?L + ?n - 2" using n2 by simp
    show "pos + ?L + ?n - 2 \<le> endp" using assms(3) by (simp add: length_encode_structure)
    show "m (pos + ?L + ?n - 2) = 0" using t by blast
    have "pos + ?L + ?n - 2 + 1 = pos + ?L + ?n - 1" using n2 by simp
    then show "m (pos + ?L + ?n - 2 + 1) = 0" using t by simp
    show "m q \<noteq> 0 \<or> m (q + 1) \<noteq> 0" if "pos + ?L \<le> q" "q < pos + ?L + ?n - 2" for q
      using t that by blast
  qed
  then have nxt: "fst ?after + 2 = pos + length (encode_structure s)"
    using n2 by (simp add: length_encode_structure)
  have "set (snd ?after) \<subseteq> set (reads @ [pos + 1]) \<union> {pos + ?L .. fst ?after + 1}"
    by (rule GetTableCount_strings_reads)
  moreover have "fst ?after + 1 < endp" using nxt assms(3) by simp
  ultimately have inside: "\<forall>i \<in> set (snd ?after). i < endp"
    using assms(4) lt1 by auto
  have "GetTableCount_loop m endp pos count reads =
      GetTableCount_loop m endp (pos + length (encode_structure s)) (count + 1) (snd ?after)"
    using lt h(2) nxt by (subst GetTableCount_loop.simps) (simp add: Let_def)
  with inside show ?thesis by blast
qed

lemma GetTableCount_loop_blob_reads:
  assumes "list_all wellformed_structure ss" "stored_at m pos (encode_blob ss)"
    and "pos + length (encode_blob ss) = endp" "\<forall>i \<in> set reads. i < endp"
  shows "\<forall>i \<in> set (snd (GetTableCount_loop m endp pos count reads)). i < endp"
  using assms
proof (induction ss arbitrary: pos count reads)
  case Nil
  then show ?case by (subst GetTableCount_loop.simps) (simp add: encode_blob_def)
next
  case (Cons s ss)
  let ?k = "length (encode_structure s)"
  from Cons.prems have wf: "wellformed_structure s" and wfs: "list_all wellformed_structure ss"
    by simp_all
  from Cons.prems(2) have st: "stored_at m pos (encode_structure s)"
    and sts: "stored_at m (pos + ?k) (encode_blob ss)"
    by (simp_all add: encode_blob_def stored_at_append)
  from Cons.prems(3) have e: "pos + ?k + length (encode_blob ss) = endp"
    by (simp add: encode_blob_def)
  then have "pos + ?k \<le> endp" by simp
  from GetTableCount_loop_structure_reads [OF wf st this Cons.prems(4)] obtain reads' where
    r: "GetTableCount_loop m endp pos count reads = GetTableCount_loop m endp (pos + ?k) (count + 1) reads'"
    "\<forall>i \<in> set reads'. i < endp"
    by blast
  have "\<forall>i \<in> set (snd (GetTableCount_loop m endp (pos + ?k) (count + 1) reads')). i < endp"
    by (rule Cons.IH [OF wfs sts e r(2)])
  with r(1) show ?case by simp
qed

lemma GetTableCount_reads_blob:
  assumes "list_all wellformed_structure ss" "stored_at table_data 0 (encode_blob ss)"
    and "unat len = length (encode_blob ss)"
  shows "\<forall>i \<in> set (GetTableCount_reads table_data len). i < unat len"
  unfolding GetTableCount_reads_def
  using assms(1,2) by (rule GetTableCount_loop_blob_reads) (simp_all add: assms(3))

section \<open>The walk of GetTable over wellformed structures\<close>

lemma GetTable_next_stop:
  assumes "pos \<le> z" "z + 1 < len" "m z = 0" "m (z + 1) = 0"
    and "\<And>q. pos \<le> q \<Longrightarrow> q < z \<Longrightarrow> m q \<noteq> 0 \<or> m (q + 1) \<noteq> 0"
  shows "GetTable_next m len pos = z"
  using assms
proof (induction "z - pos" arbitrary: pos)
  case 0
  then have "pos = z" by simp
  with "0.prems" show ?case
    by (subst GetTable_next.simps) simp
next
  case (Suc n)
  then have lt: "pos < z" by simp
  with Suc.prems have nz: "m pos \<noteq> 0 \<or> m (pos + 1) \<noteq> 0" by simp
  have "GetTable_next m len (pos + 1) = z"
    using Suc.hyps(2) Suc.prems lt by (intro Suc.hyps(1)) simp_all
  with nz lt Suc.prems(2) show ?case
    by (subst GetTable_next.simps) auto
qed

lemma GetTable_next_short:
  assumes "pos \<le> z" "len \<le> z + 1"
    and "\<And>q. pos \<le> q \<Longrightarrow> q < z \<Longrightarrow> m q \<noteq> 0 \<or> m (q + 1) \<noteq> 0"
  shows "len \<le> GetTable_next m len pos + 1"
  using assms
proof (induction m len pos rule: GetTable_next.induct)
  case (1 m len pos)
  show ?case
  proof (cases "pos + 1 < len \<and> (m pos \<noteq> 0 \<or> m (pos + 1) \<noteq> 0)")
    case True
    with "1.prems" have "pos + 1 \<le> z" by simp
    with True "1.prems" have "len \<le> GetTable_next m len (pos + 1) + 1"
      by (intro "1.IH") simp_all
    with True show ?thesis by (subst GetTable_next.simps) simp
  next
    case False
    have "len \<le> pos + 1"
    proof (rule ccontr)
      assume "\<not> len \<le> pos + 1"
      then have lt: "pos + 1 < len" by simp
      with False have "m pos = 0 \<and> m (pos + 1) = 0" by simp
      moreover from lt "1.prems"(2) have "pos < z" by simp
      ultimately show False using "1.prems"(3) [of pos] by simp
    qed
    with False show ?thesis by (subst GetTable_next.simps) auto
  qed
qed

lemma declared_length_not_short:
  assumes "wellformed_structure s" "stored_at m pos (encode_structure s)"
  shows "\<not> m (pos + 1) < 4"
proof -
  have "unat (m (pos + 1)) = declared_length s"
    by (rule encode_structure_header(2) [OF assms(2) assms(1)])
  then have "4 \<le> unat (m (pos + 1))" by (simp add: declared_length_def)
  then show ?thesis by (simp add: word_less_nat_alt)
qed

lemma GetTable_loop_structure:
  assumes "wellformed_structure s" "stored_at m pos (encode_structure s)"
    and "pos + length (encode_structure s) \<le> len" "table_index < table_count_m"
  shows "GetTable_loop m len table_count_m type pos table_index =
     (if stype s = type then Some pos
      else if stype s = TABLE_TYPE_END_OF_TABLE then None
      else GetTable_loop m len table_count_m type (pos + length (encode_structure s)) (table_index + 1))"
proof -
  let ?L = "declared_length s"
  let ?n = "length (encode_strings (strings s))"
  note h = encode_structure_header [OF assms(2) assms(1)]
  from assms(1) have wf: "list_all wellformed_string (strings s)"
    by (simp add: wellformed_structure_def)
  note t = encode_strings_terminator [OF h(3) wf]
  from t have n2: "2 \<le> ?n" by blast
  have c: "pos + 4 \<le> len"
    using assms(3) n2 by (simp add: length_encode_structure declared_length_def)
  have "GetTable_next m len (pos + ?L) = pos + ?L + ?n - 2"
  proof (rule GetTable_next_stop)
    show "pos + ?L \<le> pos + ?L + ?n - 2" using n2 by simp
    show "pos + ?L + ?n - 2 + 1 < len" using assms(3) n2 by (simp add: length_encode_structure)
    show "m (pos + ?L + ?n - 2) = 0" using t by blast
    have "pos + ?L + ?n - 2 + 1 = pos + ?L + ?n - 1" using n2 by simp
    then show "m (pos + ?L + ?n - 2 + 1) = 0" using t by simp
    show "m q \<noteq> 0 \<or> m (q + 1) \<noteq> 0" if "pos + ?L \<le> q" "q < pos + ?L + ?n - 2" for q
      using t that by blast
  qed
  then have "GetTable_next m len (pos + ?L) + 2 = pos + length (encode_structure s)"
    using n2 by (simp add: length_encode_structure)
  with c assms(4) h(1,2) declared_length_not_short [OF assms(1,2)] show ?thesis
    by (subst GetTable_loop.simps) (simp add: Let_def)
qed

lemma GetTable_loop_blob:
  assumes "list_all wellformed_structure ss" "stored_at m pos (encode_blob ss)"
    and "pos + length (encode_blob ss) = len" "table_index + int (length ss) \<le> table_count_m"
  shows "GetTable_loop m len table_count_m type pos table_index = locate_spec ss type pos"
  using assms
proof (induction ss arbitrary: pos table_index)
  case Nil
  then show ?case by (subst GetTable_loop.simps) (simp add: encode_blob_def)
next
  case (Cons s ss)
  let ?k = "length (encode_structure s)"
  from Cons.prems have wf: "wellformed_structure s" and wfs: "list_all wellformed_structure ss"
    by simp_all
  from Cons.prems(2) have st: "stored_at m pos (encode_structure s)"
    and sts: "stored_at m (pos + ?k) (encode_blob ss)"
    by (simp_all add: encode_blob_def stored_at_append)
  from Cons.prems(3) have e: "pos + ?k + length (encode_blob ss) = len"
    by (simp add: encode_blob_def)
  then have le: "pos + ?k \<le> len" by simp
  from Cons.prems(4) have ti: "table_index < table_count_m"
    and tis: "table_index + 1 + int (length ss) \<le> table_count_m" by simp_all
  have "GetTable_loop m len table_count_m type (pos + ?k) (table_index + 1) = locate_spec ss type (pos + ?k)"
    by (rule Cons.IH [OF wfs sts e tis])
  then show ?case
    by (simp add: GetTable_loop_structure [OF wf st le ti])
qed

lemma locate_spec_Some_iff:
  "locate_spec ss type offset = Some p \<longleftrightarrow>
     (\<exists>pre x post. ss = pre @ x # post \<and> stype x = type
        \<and> (\<forall>y \<in> set pre. stype y \<noteq> type \<and> stype y \<noteq> TABLE_TYPE_END_OF_TABLE)
        \<and> p = offset + length (encode_blob pre))"
proof (induction ss arbitrary: offset)
  case Nil
  then show ?case by simp
next
  case (Cons s ss)
  show ?case
  proof (cases "stype s = type")
    case True
    have "(\<exists>pre x post. s # ss = pre @ x # post \<and> stype x = type
        \<and> (\<forall>y \<in> set pre. stype y \<noteq> type \<and> stype y \<noteq> TABLE_TYPE_END_OF_TABLE)
        \<and> p = offset + length (encode_blob pre)) \<longleftrightarrow> p = offset"
    proof
      assume "\<exists>pre x post. s # ss = pre @ x # post \<and> stype x = type
        \<and> (\<forall>y \<in> set pre. stype y \<noteq> type \<and> stype y \<noteq> TABLE_TYPE_END_OF_TABLE)
        \<and> p = offset + length (encode_blob pre)"
      then obtain pre x post where a: "s # ss = pre @ x # post"
        "\<forall>y \<in> set pre. stype y \<noteq> type \<and> stype y \<noteq> TABLE_TYPE_END_OF_TABLE"
        "p = offset + length (encode_blob pre)" by blast
      have "pre = []"
      proof (cases pre)
        case (Cons y ys)
        with a(1) have "y = s" by simp
        with a(2) Cons True show ?thesis by simp
      qed simp
      with a(3) show "p = offset" by (simp add: encode_blob_def)
    next
      assume "p = offset"
      then have "s # ss = [] @ s # ss \<and> stype s = type
        \<and> (\<forall>y \<in> set []. stype y \<noteq> type \<and> stype y \<noteq> TABLE_TYPE_END_OF_TABLE)
        \<and> p = offset + length (encode_blob [])"
        using True by (simp add: encode_blob_def)
      then show "\<exists>pre x post. s # ss = pre @ x # post \<and> stype x = type
        \<and> (\<forall>y \<in> set pre. stype y \<noteq> type \<and> stype y \<noteq> TABLE_TYPE_END_OF_TABLE)
        \<and> p = offset + length (encode_blob pre)" by blast
    qed
    with True show ?thesis by auto
  next
    case False
    note nt = False
    have split: "(\<exists>pre x post. s # ss = pre @ x # post \<and> stype x = type
        \<and> (\<forall>y \<in> set pre. stype y \<noteq> type \<and> stype y \<noteq> TABLE_TYPE_END_OF_TABLE)
        \<and> p = offset + length (encode_blob pre)) \<longleftrightarrow>
      (stype s \<noteq> TABLE_TYPE_END_OF_TABLE \<and>
       (\<exists>pre x post. ss = pre @ x # post \<and> stype x = type
        \<and> (\<forall>y \<in> set pre. stype y \<noteq> type \<and> stype y \<noteq> TABLE_TYPE_END_OF_TABLE)
        \<and> p = offset + length (encode_structure s) + length (encode_blob pre)))"
      (is "?A \<longleftrightarrow> ?B")
    proof
      assume ?A
      then obtain pre x post where a: "s # ss = pre @ x # post" "stype x = type"
        "\<forall>y \<in> set pre. stype y \<noteq> type \<and> stype y \<noteq> TABLE_TYPE_END_OF_TABLE"
        "p = offset + length (encode_blob pre)" by blast
      from a(1,2) nt obtain pre' where pre: "pre = s # pre'" by (cases pre) auto
      with a(1) have "ss = pre' @ x # post" by simp
      moreover from a(3) pre have "stype s \<noteq> TABLE_TYPE_END_OF_TABLE"
        "\<forall>y \<in> set pre'. stype y \<noteq> type \<and> stype y \<noteq> TABLE_TYPE_END_OF_TABLE" by simp_all
      moreover from a(4) pre have "p = offset + length (encode_structure s) + length (encode_blob pre')"
        by (simp add: encode_blob_def)
      ultimately show ?B using a(2) by blast
    next
      assume ?B
      then obtain pre x post where b: "stype s \<noteq> TABLE_TYPE_END_OF_TABLE"
        "ss = pre @ x # post" "stype x = type"
        "\<forall>y \<in> set pre. stype y \<noteq> type \<and> stype y \<noteq> TABLE_TYPE_END_OF_TABLE"
        "p = offset + length (encode_structure s) + length (encode_blob pre)" by blast
      then have "s # ss = (s # pre) @ x # post \<and> stype x = type
        \<and> (\<forall>y \<in> set (s # pre). stype y \<noteq> type \<and> stype y \<noteq> TABLE_TYPE_END_OF_TABLE)
        \<and> p = offset + length (encode_blob (s # pre))"
        using nt by (simp add: encode_blob_def)
      then show ?A by blast
    qed
    show ?thesis
    proof (cases "stype s = TABLE_TYPE_END_OF_TABLE")
      case True
      with nt split show ?thesis by simp
    next
      case False
      with nt split Cons.IH [of "offset + length (encode_structure s)"] show ?thesis by simp
    qed
  qed
qed

lemma GetTable_loop_structure_any:
  assumes "wellformed_structure s" "stored_at m pos (encode_structure s)" "stype s \<noteq> type"
  shows "GetTable_loop m len table_count_m type pos table_index = None
     \<or> GetTable_loop m len table_count_m type pos table_index =
        GetTable_loop m len table_count_m type (pos + length (encode_structure s)) (table_index + 1)"
proof (cases "pos + length (encode_structure s) \<le> len \<and> table_index < table_count_m")
  case True
  with GetTable_loop_structure [OF assms(1,2), of len table_index table_count_m type] assms(3)
  show ?thesis by auto
next
  case False
  let ?L = "declared_length s"
  let ?n = "length (encode_strings (strings s))"
  note h = encode_structure_header [OF assms(2) assms(1)]
  from assms(1) have wf: "list_all wellformed_string (strings s)"
    by (simp add: wellformed_structure_def)
  note t = encode_strings_terminator [OF h(3) wf]
  from t have n2: "2 \<le> ?n" by blast
  show ?thesis
  proof (cases "table_index < table_count_m \<and> pos + 4 \<le> len")
    case c: True
    with False have short: "len < pos + ?L + ?n" by (simp add: length_encode_structure)
    have "len \<le> GetTable_next m len (pos + ?L) + 1"
    proof (rule GetTable_next_short)
      show "pos + ?L \<le> pos + ?L + ?n - 2" using n2 by simp
      show "len \<le> pos + ?L + ?n - 2 + 1" using short n2 by simp
      show "m q \<noteq> 0 \<or> m (q + 1) \<noteq> 0" if "pos + ?L \<le> q" "q < pos + ?L + ?n - 2" for q
        using t that by blast
    qed
    then have "\<not> GetTable_next m len (pos + ?L) + 2 + 4 \<le> len" by simp
    then have "GetTable_loop m len table_count_m type (GetTable_next m len (pos + ?L) + 2) (table_index + 1) = None"
      by (subst GetTable_loop.simps) simp
    with h(1,2) assms(3) have "GetTable_loop m len table_count_m type pos table_index = None"
      using GetTable_loop.simps [of m len table_count_m type pos table_index]
      by (simp add: Let_def)
    then show ?thesis by simp
  next
    case False
    then have "GetTable_loop m len table_count_m type pos table_index = None"
      by (subst GetTable_loop.simps) auto
    then show ?thesis by simp
  qed
qed

lemma GetTable_loop_malformed:
  assumes "list_all wellformed_structure pre" "\<forall>x \<in> set pre. stype x \<noteq> type"
    and "stored_at m pos (encode_blob pre)" "m (pos + length (encode_blob pre) + 1) < 4"
  shows "GetTable_loop m len table_count_m type pos table_index = None"
  using assms
proof (induction pre arbitrary: pos table_index)
  case Nil
  then show ?case by (subst GetTable_loop.simps) (simp add: encode_blob_def Let_def)
next
  case (Cons s pre)
  let ?k = "length (encode_structure s)"
  from Cons.prems have wf: "wellformed_structure s" and wfs: "list_all wellformed_structure pre"
    and ty: "stype s \<noteq> type" and tys: "\<forall>x \<in> set pre. stype x \<noteq> type"
    by simp_all
  from Cons.prems(3) have st: "stored_at m pos (encode_structure s)"
    and sts: "stored_at m (pos + ?k) (encode_blob pre)"
    by (simp_all add: encode_blob_def stored_at_append)
  from Cons.prems(4) have bad: "m (pos + ?k + length (encode_blob pre) + 1) < 4"
    by (simp add: encode_blob_def add.assoc)
  have "GetTable_loop m len table_count_m type (pos + ?k) (table_index + 1) = None"
    by (rule Cons.IH [OF wfs tys sts bad])
  with GetTable_loop_structure_any [OF wf st ty, of len table_count_m table_index]
  show ?case by auto
qed

section \<open>Bounds on the count\<close>

lemma GetTableCount_loop_mono: "count \<le> fst (GetTableCount_loop m endp pos count reads)"
proof (induction m endp pos count reads rule: GetTableCount_loop.induct)
  case (1 m endp pos count reads)
  show ?case
  proof (cases "pos < endp")
    case True
    define after where "after = GetTableCount_strings m endp (pos + unat (m (pos + 1))) (reads @ [pos + 1])"
    from "1" [OF True after_def]
    have "count + 1 \<le> fst (GetTableCount_loop m endp (fst after + 2) (count + 1) (snd after))" .
    with True show ?thesis
      by (subst GetTableCount_loop.simps) (simp add: Let_def after_def)
  next
    case False
    then show ?thesis by (subst GetTableCount_loop.simps) simp
  qed
qed

lemma GetTableCount_loop_once:
  assumes "pos < endp"
  shows "count + 1 \<le> fst (GetTableCount_loop m endp pos count reads)"
proof -
  define after where "after = GetTableCount_strings m endp (pos + unat (m (pos + 1))) (reads @ [pos + 1])"
  have "count + 1 \<le> fst (GetTableCount_loop m endp (fst after + 2) (count + 1) (snd after))"
    by (rule GetTableCount_loop_mono)
  with assms show ?thesis
    by (subst GetTableCount_loop.simps) (simp add: Let_def after_def)
qed

lemma GetTableCount_loop_le:
  "fst (GetTableCount_loop m endp pos count reads) \<le> count + (endp + 1 - pos) div 2"
proof (induction m endp pos count reads rule: GetTableCount_loop.induct)
  case (1 m endp pos count reads)
  show ?case
  proof (cases "pos < endp")
    case True
    define after where "after = GetTableCount_strings m endp (pos + unat (m (pos + 1))) (reads @ [pos + 1])"
    have ge: "pos \<le> fst after"
      using GetTableCount_strings_ge [of "pos + unat (m (pos + 1))" m endp "reads @ [pos + 1]"]
      by (simp add: after_def)
    from "1" [OF True after_def]
    have "fst (GetTableCount_loop m endp (fst after + 2) (count + 1) (snd after))
        \<le> count + 1 + (endp + 1 - (fst after + 2)) div 2" .
    also have "\<dots> \<le> count + (endp + 1 - pos) div 2"
      using ge True by simp
    finally show ?thesis using True
      by (subst GetTableCount_loop.simps) (simp add: Let_def after_def)
  next
    case False
    then show ?thesis by (subst GetTableCount_loop.simps) simp
  qed
qed

lemma GetTableCount_strings_zero:
  "m pos = 0 \<Longrightarrow> m (pos + 1) = 0 \<Longrightarrow> fst (GetTableCount_strings m endp pos reads) = pos"
  by (subst GetTableCount_strings.simps) (simp add: read_u16_eq_0)

lemma GetTableCount_loop_zero_memory:
  "pos \<le> endp + 1 \<Longrightarrow>
   fst (GetTableCount_loop (memory_of []) endp pos count reads) = count + (endp + 1 - pos) div 2"
proof (induction "memory_of []" endp pos count reads rule: GetTableCount_loop.induct)
  case (1 endp pos count reads)
  show ?case
  proof (cases "pos < endp")
    case True
    define after where "after = GetTableCount_strings (memory_of []) endp (pos + unat (memory_of [] (pos + 1))) (reads @ [pos + 1])"
    have z: "memory_of [] i = 0" for i by (simp add: memory_of_def)
    have f: "fst after = pos"
      unfolding after_def by (simp add: z GetTableCount_strings_zero)
    from True have "fst after + 2 \<le> endp + 1" by (simp add: f)
    from "1.hyps" [OF True after_def this]
    have "fst (GetTableCount_loop (memory_of []) endp (fst after + 2) (count + 1) (snd after))
        = count + 1 + (endp + 1 - (fst after + 2)) div 2" .
    also have "\<dots> = count + (endp + 1 - pos) div 2"
      using True by (simp add: f)
    finally show ?thesis using True
      by (subst GetTableCount_loop.simps) (simp add: Let_def after_def)
  next
    case False
    with "1.prems" have "endp + 1 - pos \<le> 1" by simp
    then have "(endp + 1 - pos) div 2 = 0" by simp
    with False show ?thesis by (subst GetTableCount_loop.simps) simp
  qed
qed

lemma GetTableCount_zero_memory_max: "GetTableCount (memory_of []) 0xFFFFFFFF = - 2147483648"
proof -
  have "fst (GetTableCount_loop (memory_of []) (unat (0xFFFFFFFF :: 32 word)) 0 0 []) = 2147483648"
    by (subst GetTableCount_loop_zero_memory) simp_all
  then show ?thesis by (simp add: GetTableCount_def)
qed

lemma GetTableCount_at_least_one:
  assumes "len \<noteq> 0" "len \<noteq> 0xFFFFFFFF"
  shows "1 \<le> GetTableCount m len"
proof -
  define n where "n = fst (GetTableCount_loop m (unat len) 0 0 [])"
  from assms(1) have "0 < unat len" by (simp add: unat_gt_0)
  then have n1: "1 \<le> n"
    using GetTableCount_loop_once [of 0 "unat len" 0 m "[]"] by (simp add: n_def)
  have nle: "n \<le> (unat len + 1) div 2"
    using GetTableCount_loop_le [of m "unat len" 0 0 "[]"] by (simp add: n_def)
  have lt: "unat len < 2 ^ 32" using unsigned_less [of len] by simp
  have g: "GetTableCount m len = sint (word_of_nat n :: 32 word)"
    by (simp add: GetTableCount_def n_def)
  from assms(2) have "unat len \<noteq> unat (0xFFFFFFFF :: 32 word)"
    by (simp only: word_unat_eq_iff [symmetric] not_False_eq_True)
  with lt have "unat len < 2 ^ 32 - 1" by simp
  with nle have "n < 2 ^ 31" by simp
  then have "sint (word_of_nat n :: 32 word) = int n"
    by (simp add: signed_of_nat signed_take_bit_int_eq_self)
  with n1 show ?thesis by (simp add: g)
qed

lemma GetTableCount_zero_length: "GetTableCount m 0 = 0"
  by (simp add: GetTableCount_def GetTableCount_loop.simps)

section \<open>String references\<close>

lemma strlen_stop:
  assumes "\<And>i. i < n \<Longrightarrow> m (s + i) \<noteq> 0" "m (s + n) = 0"
  shows "strlen m s = Some n"
  using assms
proof (induction n arbitrary: s)
  case 0
  then show ?case by (subst strlen.simps) simp
next
  case (Suc n)
  from Suc.prems(1) [of 0] have nz: "m s \<noteq> 0" by simp
  have "strlen m (s + 1) = Some n"
  proof (rule Suc.IH)
    show "m (s + 1 + i) \<noteq> 0" if "i < n" for i
      using Suc.prems(1) [of "Suc i"] that by simp
    show "m (s + 1 + n) = 0" using Suc.prems(2) by simp
  qed
  with nz show ?case by (subst strlen.simps) simp
qed

lemma strlen_stored:
  assumes "stored_at m s (str @ [0])" "0 \<notin> set str"
  shows "strlen m s = Some (length str)"
proof (rule strlen_stop)
  from assms(1) have st: "stored_at m s str" and z: "m (s + length str) = 0"
    by (simp_all add: stored_at_append)
  show "m (s + length str) = 0" by (rule z)
  show "m (s + i) \<noteq> 0" if "i < length str" for i
  proof -
    from that have "m (s + i) = str ! i" by (rule stored_at_nth [OF st])
    moreover from that have "str ! i \<in> set str" by simp
    ultimately show ?thesis using assms(2) by metis
  qed
qed

lemma GetString_loop_short_list:
  assumes "stored_at m s (string_list ss)" "list_all wellformed_string ss" "length ss < unat handle"
  shows "\<exists>p. GetString_loop m handle s = Some p \<and> m p = 0"
  using assms
proof (induction ss arbitrary: s handle)
  case Nil
  then have "m s = 0" by simp
  then show ?case by (subst GetString_loop.simps) simp
next
  case (Cons x xs)
  from Cons.prems(2) have "wellformed_string x" and wfs: "list_all wellformed_string xs"
    by simp_all
  then have x: "x \<noteq> []" "0 \<notin> set x"
    by (simp_all add: wellformed_string_def)
  from Cons.prems(1) have st: "stored_at m s (x @ [0])"
    and sts: "stored_at m (s + length x + 1) (string_list xs)"
    by (simp_all add: stored_at_append)
  from x st have nz: "m s \<noteq> 0" by (cases x) auto
  from Cons.prems(3) have h: "1 < handle"
    by (simp add: word_less_nat_alt)
  then have "1 \<le> handle" by (simp add: order_less_imp_le)
  then have "unat (handle - 1) = unat handle - 1" by (simp add: unat_sub)
  with Cons.prems(3) have less: "length xs < unat (handle - 1)" by simp
  have len: "strlen m s = Some (length x)" by (rule strlen_stored [OF st x(2)])
  from Cons.IH [OF sts wfs less] obtain p where
    "GetString_loop m (handle - 1) (s + length x + 1) = Some p" "m p = 0" by blast
  with nz h len show ?case by (subst GetString_loop.simps) simp
qed

lemma GetString_empty:
  assumes "GetByte t offset = 0
    \<or> (stored_at (mem t) (data t + unat (GetByte t 0x01)) (encode_strings ss)
       \<and> list_all wellformed_string ss \<and> length ss < unat (GetByte t offset))"
  shows "GetString t offset = Some []"
proof (cases "GetByte t offset = 0")
  case True
  then show ?thesis by (simp add: GetString_def)
next
  case False
  with assms have st: "stored_at (mem t) (data t + unat (GetByte t 0x01)) (encode_strings ss)"
    and wf: "list_all wellformed_string ss" and less: "length ss < unat (GetByte t offset)"
    by simp_all
  have b1: "GetByte t 0x01 = mem t (data t + 1)" by (simp add: GetByte_def)
  have "\<exists>p. GetString_loop (mem t) (GetByte t offset) (data t + unat (mem t (data t + 1))) = Some p
      \<and> mem t p = 0"
  proof (cases "ss = []")
    case True
    with st have "mem t (data t + unat (mem t (data t + 1))) = 0"
      by (simp add: encode_strings_def b1)
    then show ?thesis by (subst GetString_loop.simps) simp
  next
    case nonempty: False
    with st have "stored_at (mem t) (data t + unat (mem t (data t + 1))) (string_list ss)"
      by (simp add: encode_strings_def b1)
    then show ?thesis using wf less by (rule GetString_loop_short_list)
  qed
  then obtain p where "GetString_loop (mem t) (GetByte t offset) (data t + unat (mem t (data t + 1))) = Some p"
    "mem t p = 0" by blast
  with False show ?thesis by (simp add: GetString_def)
qed

section \<open>The feature lists\<close>

lemma characteristics_loop_eq:
  "i \<le> 32 \<Longrightarrow> characteristics_loop c i acc =
     acc @ map (\<lambda>j. (characteristics_names ! (j - 3), bit c j)) [i..<32]"
proof (induction c i acc rule: characteristics_loop.induct)
  case (1 c i acc)
  show ?case
  proof (cases "i \<le> 31")
    case True
    then have u: "[i..<32] = i # [i + 1..<32]" by (simp add: upt_conv_Cons)
    from True "1.IH" have "characteristics_loop c (i + 1)
         (acc @ [(characteristics_names ! (i - 3), c AND push_bit i 1 \<noteq> 0)]) =
       (acc @ [(characteristics_names ! (i - 3), c AND push_bit i 1 \<noteq> 0)])
         @ map (\<lambda>j. (characteristics_names ! (j - 3), bit c j)) [i + 1..<32]"
      by simp
    with True show ?thesis
      by (subst characteristics_loop.simps) (simp add: u bit_test_eq')
  next
    case False
    with "1.prems" have "i = 32" by simp
    then show ?thesis by (subst characteristics_loop.simps) simp
  qed
qed

lemma characteristics1_loop_eq:
  "i \<le> 8 \<Longrightarrow> characteristics1_loop c i acc =
     acc @ map (\<lambda>j. (characteristics1_names ! j, bit c j)) [i..<8]"
proof (induction c i acc rule: characteristics1_loop.induct)
  case (1 c i acc)
  show ?case
  proof (cases "i \<le> 7")
    case True
    then have u: "[i..<8] = i # [i + 1..<8]" by (simp add: upt_conv_Cons)
    from True "1.IH" have "characteristics1_loop c (i + 1)
         (acc @ [(characteristics1_names ! i, c AND push_bit i 1 \<noteq> 0)]) =
       (acc @ [(characteristics1_names ! i, c AND push_bit i 1 \<noteq> 0)])
         @ map (\<lambda>j. (characteristics1_names ! j, bit c j)) [i + 1..<8]"
      by simp
    with True show ?thesis
      by (subst characteristics1_loop.simps) (simp add: u bit_test_eq')
  next
    case False
    with "1.prems" have "i = 8" by simp
    then show ?thesis by (subst characteristics1_loop.simps) simp
  qed
qed

lemma characteristics2_loop_eq:
  "i \<le> 3 \<Longrightarrow> characteristics2_loop c i acc =
     acc @ map (\<lambda>j. (characteristics2_names ! j, bit c j)) [i..<3]"
proof (induction c i acc rule: characteristics2_loop.induct)
  case (1 c i acc)
  show ?case
  proof (cases "i \<le> 2")
    case True
    then have u: "[i..<3] = i # [i + 1..<3]" by (simp add: upt_conv_Cons)
    from True "1.IH" have "characteristics2_loop c (i + 1)
         (acc @ [(characteristics2_names ! i, c AND push_bit i 1 \<noteq> 0)]) =
       (acc @ [(characteristics2_names ! i, c AND push_bit i 1 \<noteq> 0)])
         @ map (\<lambda>j. (characteristics2_names ! j, bit c j)) [i + 1..<3]"
      by simp
    with True show ?thesis
      by (subst characteristics2_loop.simps) (simp add: u bit_test_eq')
  next
    case False
    with "1.prems" have "i = 3" by simp
    then show ?thesis by (subst characteristics2_loop.simps) simp
  qed
qed

lemma features_loop_eq:
  "i \<le> 5 \<Longrightarrow> features_loop c i acc =
     acc @ map (\<lambda>j. (feature_names ! j, bit c j)) [i..<5]"
proof (induction c i acc rule: features_loop.induct)
  case (1 c i acc)
  show ?case
  proof (cases "i \<le> 4")
    case True
    then have u: "[i..<5] = i # [i + 1..<5]" by (simp add: upt_conv_Cons)
    from True "1.IH" have "features_loop c (i + 1)
         (acc @ [(feature_names ! i, c AND push_bit i 1 \<noteq> 0)]) =
       (acc @ [(feature_names ! i, c AND push_bit i 1 \<noteq> 0)])
         @ map (\<lambda>j. (feature_names ! j, bit c j)) [i + 1..<5]"
      by simp
    with True show ?thesis
      by (subst features_loop.simps) (simp add: u bit_test_eq')
  next
    case False
    with "1.prems" have "i = 5" by simp
    then show ?thesis by (subst features_loop.simps) simp
  qed
qed

lemma GetCharacteristics_eq:
  "GetCharacteristics t =
     (if bit (GetQword t 0x0A) 3 then []
      else map (\<lambda>i. (characteristics_names ! (i - 3), bit (GetQword t 0x0A) i)) [4..<32])
     @ (if 0x13 \<le> GetByte t 0x01
        then map (\<lambda>i. (characteristics1_names ! i, bit (GetByte t 0x12) i)) [0..<8] else [])
     @ (if 0x14 \<le> GetByte t 0x01
        then map (\<lambda>i. (characteristics2_names ! i, bit (GetByte t 0x13) i)) [0..<3] else [])"
proof -
  have b3: "(GetQword t 0x0A AND push_bit 3 1 = 0) = (\<not> bit (GetQword t 0x0A) 3)"
    using bit_test_eq [of "GetQword t 0x0A" 3] by blast
  show ?thesis
    unfolding GetCharacteristics_def Let_def b3
    by (simp add: characteristics_loop_eq characteristics1_loop_eq characteristics2_loop_eq)
qed

lemma GetCharacteristics_empty_iff:
  "GetCharacteristics t = [] \<longleftrightarrow> bit (GetQword t 0x0A) 3 \<and> GetByte t 0x01 < 0x13"
proof -
  have "0x13 \<le> GetByte t 0x01" if "0x14 \<le> GetByte t 0x01"
  proof -
    have "(0x13 :: 8 word) \<le> 0x14" by simp
    then show ?thesis using that by (rule order_trans)
  qed
  then show ?thesis
    unfolding GetCharacteristics_eq by (auto simp: not_le)
qed

lemma GetFeatures_eq:
  "GetFeatures t =
     (if GetByte t 0x01 < 0x0A \<or> GetByte t 0x09 AND 0x1F = 0 then []
      else map (\<lambda>i. (feature_names ! i, bit (GetByte t 0x09) i)) [0..<5])"
  by (simp add: GetFeatures_def Let_def features_loop_eq)

lemma GetFeatures_empty_iff:
  "GetFeatures t = [] \<longleftrightarrow> GetByte t 0x01 < 0x0A \<or> GetByte t 0x09 AND 0x1F = 0"
  unfolding GetFeatures_eq by simp

section \<open>The UUID\<close>

lemma GetUUID_loop_eq:
  "i \<le> 16 \<Longrightarrow> GetUUID_loop m ptr i only_0xFF only_0x00 =
     (only_0xFF \<and> (\<forall>j. i \<le> j \<and> j < 16 \<longrightarrow> m (ptr + j) = 0xFF),
      only_0x00 \<and> (\<forall>j. i \<le> j \<and> j < 16 \<longrightarrow> m (ptr + j) = 0x00))"
proof (induction m ptr i only_0xFF only_0x00 rule: GetUUID_loop.induct)
  case (1 m ptr i only_0xFF only_0x00)
  show ?case
  proof (cases "i < 16 \<and> (only_0x00 \<or> only_0xFF)")
    case True
    have split: "(\<forall>j. i \<le> j \<and> j < 16 \<longrightarrow> P j) \<longleftrightarrow> P i \<and> (\<forall>j. i + 1 \<le> j \<and> j < 16 \<longrightarrow> P j)" for P
    proof
      assume a: "\<forall>j. i \<le> j \<and> j < 16 \<longrightarrow> P j"
      with True show "P i \<and> (\<forall>j. i + 1 \<le> j \<and> j < 16 \<longrightarrow> P j)" by simp
    next
      assume a: "P i \<and> (\<forall>j. i + 1 \<le> j \<and> j < 16 \<longrightarrow> P j)"
      show "\<forall>j. i \<le> j \<and> j < 16 \<longrightarrow> P j"
      proof (intro allI impI)
        fix j assume "i \<le> j \<and> j < 16"
        then consider "j = i" | "i + 1 \<le> j \<and> j < 16" by linarith
        then show "P j" using a by cases auto
      qed
    qed
    from True "1.IH" have "GetUUID_loop m ptr (i + 1)
        (if m (ptr + i) \<noteq> 0xFF then False else only_0xFF)
        (if m (ptr + i) \<noteq> 0x00 then False else only_0x00) =
      ((if m (ptr + i) \<noteq> 0xFF then False else only_0xFF)
          \<and> (\<forall>j. i + 1 \<le> j \<and> j < 16 \<longrightarrow> m (ptr + j) = 0xFF),
       (if m (ptr + i) \<noteq> 0x00 then False else only_0x00)
          \<and> (\<forall>j. i + 1 \<le> j \<and> j < 16 \<longrightarrow> m (ptr + j) = 0x00))"
      by simp
    with True show ?thesis
      apply (subst GetUUID_loop.simps)
      apply (simp only: if_True)
      apply (subst split [of "\<lambda>j. m (ptr + j) = 0xFF"])
      apply (subst split [of "\<lambda>j. m (ptr + j) = 0x00"])
      apply auto
      done
  next
    case False
    then show ?thesis
      by (subst GetUUID_loop.simps) auto
  qed
qed

lemma upt_16: "[0..<16] = [0, 1, 2, 3, 4, 5, 6, 7, 8, 9, 10, 11, 12, 13, 14, 15]"
  by (simp add: upt_rec)

lemma uuid_bytes_eq:
  "uuid_bytes t =
     [mem t (data t + 8 + 0), mem t (data t + 8 + 1), mem t (data t + 8 + 2), mem t (data t + 8 + 3),
      mem t (data t + 8 + 4), mem t (data t + 8 + 5), mem t (data t + 8 + 6), mem t (data t + 8 + 7),
      mem t (data t + 8 + 8), mem t (data t + 8 + 9), mem t (data t + 8 + 10), mem t (data t + 8 + 11),
      mem t (data t + 8 + 12), mem t (data t + 8 + 13), mem t (data t + 8 + 14), mem t (data t + 8 + 15)]"
  unfolding uuid_bytes_def upt_16 by simp

lemma uuid_bytes_replicate:
  "uuid_bytes t = replicate 16 c \<longleftrightarrow> (\<forall>j. 0 \<le> j \<and> j < 16 \<longrightarrow> mem t (data t + 8 + j) = c)"
proof
  assume a: "uuid_bytes t = replicate 16 c"
  show "\<forall>j. 0 \<le> j \<and> j < 16 \<longrightarrow> mem t (data t + 8 + j) = c"
  proof (intro allI impI)
    fix j :: nat assume j: "0 \<le> j \<and> j < 16"
    then have "uuid_bytes t ! j = mem t (data t + 8 + j)" by (simp add: uuid_bytes_def)
    moreover from j have "replicate 16 c ! j = c" by simp
    ultimately show "mem t (data t + 8 + j) = c" using a by simp
  qed
next
  assume a: "\<forall>j. 0 \<le> j \<and> j < 16 \<longrightarrow> mem t (data t + 8 + j) = c"
  show "uuid_bytes t = replicate 16 c"
    by (rule nth_equalityI) (simp_all add: uuid_bytes_def a)
qed

lemma GetUUID_flags:
  "GetUUID_loop (mem t) (GetPointer t 0x08) 0 True True =
     (uuid_bytes t = replicate 16 0xFF, uuid_bytes t = replicate 16 0x00)"
  by (simp add: GetUUID_loop_eq uuid_bytes_replicate GetPointer_def)

lemma GetUUID_raw_args:
  "[mem t (GetPointer t 0x08 + 0), mem t (GetPointer t 0x08 + 1), mem t (GetPointer t 0x08 + 2),
    mem t (GetPointer t 0x08 + 3), mem t (GetPointer t 0x08 + 4), mem t (GetPointer t 0x08 + 5),
    mem t (GetPointer t 0x08 + 6), mem t (GetPointer t 0x08 + 7), mem t (GetPointer t 0x08 + 8),
    mem t (GetPointer t 0x08 + 9), mem t (GetPointer t 0x08 + 10), mem t (GetPointer t 0x08 + 11),
    mem t (GetPointer t 0x08 + 12), mem t (GetPointer t 0x08 + 13), mem t (GetPointer t 0x08 + 14),
    mem t (GetPointer t 0x08 + 15)] = uuid_bytes t"
  unfolding uuid_bytes_eq by (simp add: GetPointer_def)

lemma GetUUID_swapped_args:
  "[mem t (GetPointer t 0x08 + 3), mem t (GetPointer t 0x08 + 2), mem t (GetPointer t 0x08 + 1),
    mem t (GetPointer t 0x08 + 0), mem t (GetPointer t 0x08 + 5), mem t (GetPointer t 0x08 + 4),
    mem t (GetPointer t 0x08 + 7), mem t (GetPointer t 0x08 + 6), mem t (GetPointer t 0x08 + 8),
    mem t (GetPointer t 0x08 + 9), mem t (GetPointer t 0x08 + 10), mem t (GetPointer t 0x08 + 11),
    mem t (GetPointer t 0x08 + 12), mem t (GetPointer t 0x08 + 13), mem t (GetPointer t 0x08 + 14),
    mem t (GetPointer t 0x08 + 15)] = map (\<lambda>i. uuid_bytes t ! i) uuid_order"
  unfolding uuid_bytes_eq uuid_order_def by (simp add: GetPointer_def)

lemma GetUUID_eq:
  "GetUUID t =
     (if GetByte t 0x01 < 0x19 \<or> uuid_bytes t = replicate 16 0x00 \<or> uuid_bytes t = replicate 16 0xFF
      then []
      else if 0x0206 \<le> uint (major_version t) * 256 + uint (minor_version t)
      then StringPrintf_uuid (map (\<lambda>i. uuid_bytes t ! i) uuid_order)
      else StringPrintf_uuid (uuid_bytes t))"
proof -
  have v: "push_bit 8 (uint (major_version t)) = uint (major_version t) * 256"
    by (simp add: push_bit_eq_mult)
  show ?thesis
    unfolding GetUUID_def Let_def GetUUID_raw_args GetUUID_swapped_args GetUUID_flags v fst_conv snd_conv
    by auto
qed

lemma StringPrintf_uuid_example_26:
  "StringPrintf_uuid (map (\<lambda>i. [1, 2, 3, 4, 5, 6, 7, 8, 9, 10, 11, 12, 13, 14, 15, 16] ! i) uuid_order)
     = ''04030201-0605-0807-090A-0B0C0D0E0F10''"
  by (simp add: uuid_order_def format_02X_def hex_digit_def)

lemma StringPrintf_uuid_example_20:
  "StringPrintf_uuid [1, 2, 3, 4, 5, 6, 7, 8, 9, 10, 11, 12, 13, 14, 15, 16]
     = ''01020304-0506-0708-090A-0B0C0D0E0F10''"
  by (simp add: format_02X_def hex_digit_def)

section \<open>Facts about the examples\<close>

lemma encode_example_structures:
  "encode_blob example_structures =
     [0, 6, 0, 1, 1, 2, 0x41, 0x42, 0, 0x43, 0, 0, 1, 4, 1, 1, 0, 0, 0x7F, 4, 2, 1, 0, 0]"
  by (simp add: example_structures_def encode_blob_def encode_structure_def encode_strings_def
      declared_length_def)

lemma wellformed_example_structures: "list_all wellformed_structure example_structures"
  by (simp add: example_structures_def wellformed_structure_def wellformed_string_def
      declared_length_def)

lemma GetTableCount_example: "GetTableCount (smbios_table_data example_data) (length_field example_data) = 3"
proof -
  have "GetTableCount (memory_of (encode_blob example_structures)) 24 = int (length example_structures)"
    using wellformed_example_structures
  proof (rule GetTableCount_blob)
    show "stored_at (memory_of (encode_blob example_structures)) 0 (encode_blob example_structures)"
      using stored_at_memory_of [of "[]" "encode_blob example_structures" "[]"] by simp
    show "unat (24 :: 32 word) = length (encode_blob example_structures)"
      by (simp add: encode_example_structures)
  qed
  then show ?thesis by (simp add: example_data_def example_structures_def)
qed

lemma Create_example:
  "Create (Some example_data) 32 = Inr \<lparr>smbios_data = example_data, data_size = 32, table_count = 3\<rparr>"
  by (simp add: Create_def GetTableCount_example)

lemma GetTableCount_example_malformed:
  "GetTableCount (smbios_table_data example_malformed) (length_field example_malformed) = 3"
  by (simp add: GetTableCount_def GetTableCount_loop.simps GetTableCount_strings.simps
      memory_of_def read_u16_def example_malformed_def)

lemma example_system_bytes:
  "GetByte (example_system table_length major minor) 0x01 = table_length"
  "uuid_bytes (example_system table_length major minor)
     = [1, 2, 3, 4, 5, 6, 7, 8, 9, 10, 11, 12, 13, 14, 15, 16]"
  "major_version (example_system table_length major minor) = major"
  "minor_version (example_system table_length major minor) = minor"
  by (simp_all add: GetByte_def uuid_bytes_eq example_system_def memory_of_def)

section \<open>The decoder object and the located structure\<close>

lemma locate_spec_no_match: "\<forall>x \<in> set ss. stype x \<noteq> type \<Longrightarrow> locate_spec ss type offset = None"
  by (induction ss arbitrary: offset) auto

lemma locate_spec_end_first:
  assumes "stype e = TABLE_TYPE_END_OF_TABLE" "type \<noteq> TABLE_TYPE_END_OF_TABLE"
    and "\<forall>y \<in> set pre. stype y \<noteq> type"
  shows "locate_spec (pre @ e # post) type offset = None"
  using assms by (induction pre arbitrary: offset) auto

lemma Create_Inr:
  assumes "Create (Some d) sz = Inr s"
  shows "s = \<lparr>smbios_data = d, data_size = sz,
             table_count = GetTableCount (smbios_table_data d) (length_field d)\<rparr>"
  using assms by (auto simp: Create_def Let_def split: if_splits)

lemma GetTable_blob:
  assumes "list_all wellformed_structure ss"
    and "stored_at (smbios_table_data d) 0 (encode_blob ss)"
    and "unat (length_field d) = length (encode_blob ss)"
    and "Create (Some d) sz = Inr s"
  shows "GetTable s type = locate_spec ss type 0"
proof -
  note s = Create_Inr [OF assms(4)]
  have c: "GetTableCount (smbios_table_data d) (length_field d) = int (length ss)"
    using assms(1,2,3) by (rule GetTableCount_blob)
  have "GetTable_loop (smbios_table_data d) (unat (length_field d)) (int (length ss)) type 0 0
      = locate_spec ss type 0"
    using assms(1,2) by (rule GetTable_loop_blob) (simp_all add: assms(3))
  then show ?thesis by (simp add: GetTable_def s c)
qed

text \<open>
  Below the largest region length the count is at least 1 for every non-zero length, so
  \<^verbatim>\<open>Create\<close> fails with \<^verbatim>\<open>NoStructures\<close> exactly when the declared length is zero.
\<close>

lemma Create_NoStructures_iff:
  assumes "length_field d \<noteq> 0xFFFFFFFF"
  shows "Create (Some d) sz = Inl NoStructures \<longleftrightarrow> sz \<noteq> 0 \<and> length_field d = 0"
proof (cases "length_field d = 0")
  case True
  then show ?thesis by (simp add: Create_def GetTableCount_zero_length)
next
  case False
  then have "1 \<le> GetTableCount (smbios_table_data d) (length_field d)"
    using assms by (rule GetTableCount_at_least_one)
  then have "GetTableCount (smbios_table_data d) (length_field d) \<noteq> 0" by simp
  with False show ?thesis by (simp add: Create_def Let_def)
qed

text \<open>
  A decoder whose count is not positive locates nothing: the test
  \<^verbatim>\<open>table_index < table_count_\<close> fails before the first structure is looked at.
\<close>

lemma GetTable_without_count: "table_count s \<le> 0 \<Longrightarrow> GetTable s type = None"
  unfolding GetTable_def by (subst GetTable_loop.simps) simp

section \<open>Blobs that start with wellformed structures\<close>

lemma GetTableCount_loop_prefix:
  assumes "list_all wellformed_structure ss" "stored_at m pos (encode_blob ss)"
    and "pos + length (encode_blob ss) \<le> endp"
  shows "\<exists>reads'. GetTableCount_loop m endp pos count reads =
     GetTableCount_loop m endp (pos + length (encode_blob ss)) (count + length ss) reads'"
  using assms
proof (induction ss arbitrary: pos count reads)
  case Nil
  have "GetTableCount_loop m endp pos count reads =
     GetTableCount_loop m endp (pos + length (encode_blob [])) (count + length []) reads"
    by (simp add: encode_blob_def)
  then show ?case by blast
next
  case (Cons s ss)
  let ?k = "length (encode_structure s)"
  from Cons.prems have wf: "wellformed_structure s" and wfs: "list_all wellformed_structure ss"
    by simp_all
  from Cons.prems(2) have st: "stored_at m pos (encode_structure s)"
    and sts: "stored_at m (pos + ?k) (encode_blob ss)"
    by (simp_all add: encode_blob_def stored_at_append)
  from Cons.prems(3) have e: "pos + ?k + length (encode_blob ss) \<le> endp"
    by (simp add: encode_blob_def)
  then have "pos + ?k \<le> endp" by simp
  from GetTableCount_loop_structure [OF wf st this] obtain r1 where
    "GetTableCount_loop m endp pos count reads = GetTableCount_loop m endp (pos + ?k) (count + 1) r1"
    by blast
  moreover from Cons.IH [OF wfs sts e] obtain r2 where
    "GetTableCount_loop m endp (pos + ?k) (count + 1) r1 =
     GetTableCount_loop m endp (pos + ?k + length (encode_blob ss)) (count + 1 + length ss) r2"
    by blast
  ultimately have "GetTableCount_loop m endp pos count reads =
     GetTableCount_loop m endp (pos + length (encode_blob (s # ss))) (count + length (s # ss)) r2"
    by (simp add: encode_blob_def add.assoc)
  then show ?case by blast
qed

lemma GetTableCount_prefix_ge:
  assumes "list_all wellformed_structure ss" "stored_at table_data 0 (encode_blob ss)"
    and "length (encode_blob ss) \<le> unat len" "ss \<noteq> []"
  shows "int (length ss) \<le> GetTableCount table_data len"
proof -
  define n where "n = fst (GetTableCount_loop table_data (unat len) 0 0 [])"
  let ?B = "length (encode_blob ss)"
  from GetTableCount_loop_prefix [OF assms(1,2), of "unat len" 0 "[]"] assms(3)
  obtain r where n: "n = fst (GetTableCount_loop table_data (unat len) ?B (length ss) r)"
    by (auto simp: n_def)
  have ge: "length ss \<le> n" unfolding n by (rule GetTableCount_loop_mono)
  have le: "n \<le> length ss + (unat len + 1 - ?B) div 2" unfolding n by (rule GetTableCount_loop_le)
  have b6: "6 * length ss \<le> ?B" by (rule length_encode_blob_ge [OF assms(1)])
  from assms(4) have k1: "1 \<le> length ss" by (cases ss) simp_all
  have lt: "unat len < 2 ^ 32" using unsigned_less [of len] by simp
  from le b6 k1 lt assms(3) have "n < 2 ^ 31" by simp
  then have "sint (word_of_nat n :: 32 word) = int n"
    by (simp add: signed_of_nat signed_take_bit_int_eq_self)
  with ge show ?thesis by (simp add: GetTableCount_def n_def)
qed

lemma GetTable_loop_ge:
  "GetTable_loop m len table_count_m type pos table_index = Some p \<Longrightarrow> pos \<le> p"
proof (induction m len table_count_m type pos table_index rule: GetTable_loop.induct)
  case (1 m len table_count_m type pos table_index)
  show ?case
  proof (cases "table_index < table_count_m \<and> pos + 4 \<le> len \<and> \<not> m (pos + 1) < 4
      \<and> m pos \<noteq> type \<and> m pos \<noteq> TABLE_TYPE_END_OF_TABLE")
    case True
    let ?next = "GetTable_next m len (pos + unat (m (pos + 1))) + 2"
    from True "1.prems" have "GetTable_loop m len table_count_m type ?next (table_index + 1) = Some p"
      by (subst (asm) GetTable_loop.simps) (simp add: Let_def)
    with True "1.IH" have "?next \<le> p" by simp
    moreover have "pos + unat (m (pos + 1)) \<le> GetTable_next m len (pos + unat (m (pos + 1)))"
      by (rule GetTable_next_ge)
    ultimately show ?thesis by simp
  next
    case False
    with "1.prems" show ?thesis
      by (subst (asm) GetTable_loop.simps) (auto simp: Let_def split: if_splits)
  qed
qed

lemma GetTable_loop_skip:
  assumes "list_all wellformed_structure ss" "stored_at m pos (encode_blob ss)"
    and "pos + length (encode_blob ss) \<le> len" "table_index + int (length ss) \<le> table_count_m"
    and "\<forall>x \<in> set ss. stype x \<noteq> type \<and> stype x \<noteq> TABLE_TYPE_END_OF_TABLE"
  shows "GetTable_loop m len table_count_m type pos table_index =
     GetTable_loop m len table_count_m type (pos + length (encode_blob ss))
       (table_index + int (length ss))"
  using assms
proof (induction ss arbitrary: pos table_index)
  case Nil
  then show ?case by (simp add: encode_blob_def)
next
  case (Cons s ss)
  let ?k = "length (encode_structure s)"
  from Cons.prems have wf: "wellformed_structure s" and wfs: "list_all wellformed_structure ss"
    and ty: "stype s \<noteq> type" "stype s \<noteq> TABLE_TYPE_END_OF_TABLE"
    and tys: "\<forall>x \<in> set ss. stype x \<noteq> type \<and> stype x \<noteq> TABLE_TYPE_END_OF_TABLE"
    by simp_all
  from Cons.prems(2) have st: "stored_at m pos (encode_structure s)"
    and sts: "stored_at m (pos + ?k) (encode_blob ss)"
    by (simp_all add: encode_blob_def stored_at_append)
  from Cons.prems(3) have e: "pos + ?k + length (encode_blob ss) \<le> len"
    by (simp add: encode_blob_def)
  then have le: "pos + ?k \<le> len" by simp
  from Cons.prems(4) have ti: "table_index < table_count_m"
    and tis: "table_index + 1 + int (length ss) \<le> table_count_m" by simp_all
  have "GetTable_loop m len table_count_m type pos table_index =
      GetTable_loop m len table_count_m type (pos + ?k) (table_index + 1)"
    using ty by (simp add: GetTable_loop_structure [OF wf st le ti])
  also have "\<dots> = GetTable_loop m len table_count_m type (pos + ?k + length (encode_blob ss))
      (table_index + 1 + int (length ss))"
    by (rule Cons.IH [OF wfs sts e tis tys])
  finally show ?case by (simp add: encode_blob_def add.assoc)
qed

lemma GetTable_loop_prefix:
  assumes "list_all wellformed_structure ss" "stored_at m pos (encode_blob ss)"
    and "pos + length (encode_blob ss) \<le> len" "table_index + int (length ss) \<le> table_count_m"
    and "\<exists>x \<in> set ss. stype x = type \<or> stype x = TABLE_TYPE_END_OF_TABLE"
  shows "GetTable_loop m len table_count_m type pos table_index = locate_spec ss type pos"
  using assms
proof (induction ss arbitrary: pos table_index)
  case Nil
  then show ?case by simp
next
  case (Cons s ss)
  let ?k = "length (encode_structure s)"
  from Cons.prems have wf: "wellformed_structure s" and wfs: "list_all wellformed_structure ss"
    by simp_all
  from Cons.prems(2) have st: "stored_at m pos (encode_structure s)"
    and sts: "stored_at m (pos + ?k) (encode_blob ss)"
    by (simp_all add: encode_blob_def stored_at_append)
  from Cons.prems(3) have e: "pos + ?k + length (encode_blob ss) \<le> len"
    by (simp add: encode_blob_def)
  then have le: "pos + ?k \<le> len" by simp
  from Cons.prems(4) have ti: "table_index < table_count_m"
    and tis: "table_index + 1 + int (length ss) \<le> table_count_m" by simp_all
  note step = GetTable_loop_structure [OF wf st le ti, of type]
  show ?case
  proof (cases "stype s = type \<or> stype s = TABLE_TYPE_END_OF_TABLE")
    case True
    then show ?thesis by (auto simp: step)
  next
    case False
    with Cons.prems(5) have "\<exists>x \<in> set ss. stype x = type \<or> stype x = TABLE_TYPE_END_OF_TABLE"
      by auto
    from Cons.IH [OF wfs sts e tis this] False show ?thesis by (simp add: step)
  qed
qed

text \<open>
  The decoder created from a blob that starts with wellformed structures, whatever follows
  them in the region.
\<close>

lemma GetTable_prefix:
  assumes "list_all wellformed_structure ss"
    and "stored_at (smbios_table_data d) 0 (encode_blob ss)"
    and "length (encode_blob ss) \<le> unat (length_field d)"
    and "Create (Some d) sz = Inr s"
  shows "(\<exists>x \<in> set ss. stype x = type \<or> stype x = TABLE_TYPE_END_OF_TABLE) \<Longrightarrow>
      GetTable s type = locate_spec ss type 0"
    and "GetTable s type = Some p \<Longrightarrow> p < length (encode_blob ss) \<Longrightarrow>
      locate_spec ss type 0 = Some p"
proof -
  note s = Create_Inr [OF assms(4)]
  let ?m = "smbios_table_data d"
  let ?len = "unat (length_field d)"
  let ?tc = "GetTableCount ?m (length_field d)"
  have g: "GetTable s type = GetTable_loop ?m ?len ?tc type 0 0"
    by (simp add: GetTable_def s)
  have c: "0 + int (length ss) \<le> ?tc" if "ss \<noteq> []"
    using GetTableCount_prefix_ge [OF assms(1,2,3) that] by simp
  show d: "GetTable s type = locate_spec ss type 0"
    if "\<exists>x \<in> set ss. stype x = type \<or> stype x = TABLE_TYPE_END_OF_TABLE"
  proof -
    from that have ne: "ss \<noteq> []" by auto
    show ?thesis unfolding g
      using assms(1,2) _ c [OF ne] that by (rule GetTable_loop_prefix) (simp add: assms(3))
  qed
  show "locate_spec ss type 0 = Some p" if r: "GetTable s type = Some p" and p: "p < length (encode_blob ss)"
  proof (cases "\<exists>x \<in> set ss. stype x = type \<or> stype x = TABLE_TYPE_END_OF_TABLE")
    case True
    with d r show ?thesis by simp
  next
    case False
    then have u: "\<forall>x \<in> set ss. stype x \<noteq> type \<and> stype x \<noteq> TABLE_TYPE_END_OF_TABLE" by blast
    from p have ne: "ss \<noteq> []" by (auto simp: encode_blob_def)
    have "GetTable_loop ?m ?len ?tc type 0 0 =
        GetTable_loop ?m ?len ?tc type (0 + length (encode_blob ss)) (0 + int (length ss))"
      using assms(1,2) _ c [OF ne] u by (rule GetTable_loop_skip) (simp add: assms(3))
    with r g have "GetTable_loop ?m ?len ?tc type (0 + length (encode_blob ss)) (0 + int (length ss)) = Some p"
      by simp
    then have "0 + length (encode_blob ss) \<le> p" by (rule GetTable_loop_ge)
    with p show ?thesis by simp
  qed
qed

section \<open>The claims\<close>

text \<open>
  C1. For every wellformed blob, a sequence of N structures, each with a declared length of
  at least 4 and a string list that ends with two consecutive zero bytes, the last of them
  the end-of-table marker (type 127), with the region length ending exactly after the last
  structure, \<^verbatim>\<open>GetTableCount\<close> returns exactly N. (The walk does not look at the type
  codes: \<open>GetTableCount_blob\<close> is the same statement for any sequence of wellformed
  structures.)
\<close>

theorem GetTableCount_wellformed:
  assumes "list_all wellformed_structure ss"
    and "ss \<noteq> []" "stype (last ss) = TABLE_TYPE_END_OF_TABLE"
    and "stored_at table_data 0 (encode_blob ss)"
    and "unat len = length (encode_blob ss)"
  shows "GetTableCount table_data len = int (length ss)"
  using assms(1,4,5) by (rule GetTableCount_blob)

theorem GetTableCount_wellformed_witness:
  "list_all wellformed_structure example_structures
   \<and> example_structures \<noteq> []
   \<and> stype (last example_structures) = TABLE_TYPE_END_OF_TABLE
   \<and> stored_at (memory_of (encode_blob example_structures)) 0 (encode_blob example_structures)
   \<and> unat (24 :: 32 word) = length (encode_blob example_structures)
   \<and> GetTableCount (memory_of (encode_blob example_structures)) 24 = 3"
proof -
  have a: "example_structures \<noteq> []" by (simp add: example_structures_def)
  have b: "stype (last example_structures) = TABLE_TYPE_END_OF_TABLE"
    by (simp add: example_structures_def TABLE_TYPE_END_OF_TABLE_def)
  have c: "stored_at (memory_of (encode_blob example_structures)) 0 (encode_blob example_structures)"
    using stored_at_memory_of [of "[]" "encode_blob example_structures" "[]"] by simp
  have d: "unat (24 :: 32 word) = length (encode_blob example_structures)"
    by (simp add: encode_example_structures)
  have "GetTableCount (memory_of (encode_blob example_structures)) 24 = int (length example_structures)"
    using wellformed_example_structures a b c d by (rule GetTableCount_wellformed)
  then have "GetTableCount (memory_of (encode_blob example_structures)) 24 = 3"
    by (simp add: example_structures_def)
  with wellformed_example_structures a b c d show ?thesis by blast
qed

text \<open>
  C2. On a decoder created from a blob that starts with wellformed structures (anything may
  follow them in the region) and for every target type: \<^verbatim>\<open>GetTable\<close> returns the
  offset of the first structure whose type code is the target type, provided no
  end-of-table marker comes before it; it returns \<open>None\<close> (\<^verbatim>\<open>nullptr\<close>) when the
  region holds nothing but the structures and none of them has the target type, and when
  the end-of-table marker is visited before any match; and an offset it returns among the
  structures is always that of the first structure of the target type, never of a later
  one.
\<close>

theorem GetTable_first_match:
  assumes "list_all wellformed_structure ss"
    and "stored_at (smbios_table_data d) 0 (encode_blob ss)"
    and "length (encode_blob ss) \<le> unat (length_field d)"
    and "Create (Some d) sz = Inr s"
  shows "(\<forall>pre x post. ss = pre @ x # post \<and> stype x = type
            \<and> (\<forall>y \<in> set pre. stype y \<noteq> type \<and> stype y \<noteq> TABLE_TYPE_END_OF_TABLE)
          \<longrightarrow> GetTable s type = Some (length (encode_blob pre)))
    \<and> (length (encode_blob ss) = unat (length_field d) \<and> (\<forall>x \<in> set ss. stype x \<noteq> type)
          \<longrightarrow> GetTable s type = None)
    \<and> (\<forall>pre e post. ss = pre @ e # post \<and> stype e = TABLE_TYPE_END_OF_TABLE
            \<and> type \<noteq> TABLE_TYPE_END_OF_TABLE \<and> (\<forall>y \<in> set pre. stype y \<noteq> type)
          \<longrightarrow> GetTable s type = None)
    \<and> (\<forall>p. GetTable s type = Some p \<and> p < length (encode_blob ss) \<longrightarrow>
          (\<exists>pre x post. ss = pre @ x # post \<and> stype x = type
             \<and> (\<forall>y \<in> set pre. stype y \<noteq> type \<and> stype y \<noteq> TABLE_TYPE_END_OF_TABLE)
             \<and> p = length (encode_blob pre)))"
proof -
  note pre = GetTable_prefix [OF assms]
  have first: "\<forall>pre x post. ss = pre @ x # post \<and> stype x = type
            \<and> (\<forall>y \<in> set pre. stype y \<noteq> type \<and> stype y \<noteq> TABLE_TYPE_END_OF_TABLE)
          \<longrightarrow> GetTable s type = Some (length (encode_blob pre))"
  proof (intro allI impI)
    fix pre x post
    assume a: "ss = pre @ x # post \<and> stype x = type
      \<and> (\<forall>y \<in> set pre. stype y \<noteq> type \<and> stype y \<noteq> TABLE_TYPE_END_OF_TABLE)"
    then have "\<exists>x \<in> set ss. stype x = type \<or> stype x = TABLE_TYPE_END_OF_TABLE" by auto
    then have "GetTable s type = locate_spec ss type 0" by (rule pre(1))
    also from a have "\<dots> = Some (length (encode_blob pre))"
      using locate_spec_Some_iff [of ss type 0 "length (encode_blob pre)"] by auto
    finally show "GetTable s type = Some (length (encode_blob pre))" .
  qed
  have none: "length (encode_blob ss) = unat (length_field d) \<and> (\<forall>x \<in> set ss. stype x \<noteq> type)
          \<longrightarrow> GetTable s type = None"
  proof
    assume a: "length (encode_blob ss) = unat (length_field d) \<and> (\<forall>x \<in> set ss. stype x \<noteq> type)"
    then have "unat (length_field d) = length (encode_blob ss)" by simp
    with assms(1,2) have "GetTable s type = locate_spec ss type 0"
      using assms(4) by (rule GetTable_blob)
    with a show "GetTable s type = None" by (simp add: locate_spec_no_match)
  qed
  have marker: "\<forall>pre e post. ss = pre @ e # post \<and> stype e = TABLE_TYPE_END_OF_TABLE
            \<and> type \<noteq> TABLE_TYPE_END_OF_TABLE \<and> (\<forall>y \<in> set pre. stype y \<noteq> type)
          \<longrightarrow> GetTable s type = None"
  proof (intro allI impI)
    fix pre e post
    assume a: "ss = pre @ e # post \<and> stype e = TABLE_TYPE_END_OF_TABLE
            \<and> type \<noteq> TABLE_TYPE_END_OF_TABLE \<and> (\<forall>y \<in> set pre. stype y \<noteq> type)"
    then have "\<exists>x \<in> set ss. stype x = type \<or> stype x = TABLE_TYPE_END_OF_TABLE" by auto
    then have "GetTable s type = locate_spec ss type 0" by (rule pre(1))
    with a show "GetTable s type = None" by (simp add: locate_spec_end_first)
  qed
  have only: "\<forall>p. GetTable s type = Some p \<and> p < length (encode_blob ss) \<longrightarrow>
          (\<exists>pre x post. ss = pre @ x # post \<and> stype x = type
             \<and> (\<forall>y \<in> set pre. stype y \<noteq> type \<and> stype y \<noteq> TABLE_TYPE_END_OF_TABLE)
             \<and> p = length (encode_blob pre))"
  proof (intro allI impI)
    fix p
    assume "GetTable s type = Some p \<and> p < length (encode_blob ss)"
    then have "locate_spec ss type 0 = Some p" using pre(2) by blast
    then show "\<exists>pre x post. ss = pre @ x # post \<and> stype x = type
             \<and> (\<forall>y \<in> set pre. stype y \<noteq> type \<and> stype y \<noteq> TABLE_TYPE_END_OF_TABLE)
             \<and> p = length (encode_blob pre)"
      using locate_spec_Some_iff [of ss type 0 p] by simp
  qed
  from first none marker only show ?thesis by blast
qed

theorem GetTable_first_match_witness:
  "list_all wellformed_structure example_structures
   \<and> stored_at (smbios_table_data example_data) 0 (encode_blob example_structures)
   \<and> length (encode_blob example_structures) \<le> unat (length_field example_data)
   \<and> Create (Some example_data) 32 = Inr \<lparr>smbios_data = example_data, data_size = 32, table_count = 3\<rparr>
   \<and> GetTable \<lparr>smbios_data = example_data, data_size = 32, table_count = 3\<rparr> 1 = Some 12"
proof -
  let ?s = "\<lparr>smbios_data = example_data, data_size = 32, table_count = 3\<rparr>"
  let ?pre = "[\<lparr>stype = 0, shandle = 0x0100, formatted = [1, 2], strings = [ [0x41, 0x42], [0x43] ]\<rparr>]"
  let ?x = "\<lparr>stype = 1, shandle = 0x0101, formatted = [], strings = []\<rparr>"
  let ?post = "[\<lparr>stype = 0x7F, shandle = 0x0102, formatted = [], strings = []\<rparr>]"
  have b: "stored_at (smbios_table_data example_data) 0 (encode_blob example_structures)"
    using stored_at_memory_of [of "[]" "encode_blob example_structures" "[]"]
    by (simp add: example_data_def)
  have c: "length (encode_blob example_structures) \<le> unat (length_field example_data)"
    by (simp add: encode_example_structures example_data_def)
  from GetTable_first_match [OF wellformed_example_structures b c Create_example, of 1]
  have "example_structures = ?pre @ ?x # ?post \<and> stype ?x = 1
      \<and> (\<forall>y \<in> set ?pre. stype y \<noteq> 1 \<and> stype y \<noteq> TABLE_TYPE_END_OF_TABLE)
      \<longrightarrow> GetTable ?s 1 = Some (length (encode_blob ?pre))"
    by blast
  then have "GetTable ?s 1 = Some (length (encode_blob ?pre))"
    by (simp add: example_structures_def TABLE_TYPE_END_OF_TABLE_def)
  then have "GetTable ?s 1 = Some 12"
    by (simp add: encode_blob_def encode_structure_def encode_strings_def declared_length_def)
  with wellformed_example_structures b c Create_example show ?thesis by blast
qed

text \<open>
  C3 says that no read leaves the region handed to the decoder. The count walk does leave
  it. On the five bytes \<^verbatim>\<open>7F 04 00 00 00\<close>, an end-of-table structure cut off one byte
  early, with region length 5, \<^verbatim>\<open>GetTableCount\<close> dereferences the offsets 1, 4 and 5;
  offset 5 is the first byte after the region. On the two bytes \<^verbatim>\<open>00 FF\<close> with region
  length 2 it dereferences the offsets 1, 255 and 256. (On a wellformed blob all reads are
  inside the region: \<open>GetTableCount_reads_blob\<close>.)
\<close>

theorem GetTableCount_reads_past_region:
  "GetTableCount_reads (memory_of [0x7F, 0x04, 0x00, 0x00, 0x00]) 5 = [1, 4, 5]
   \<and> GetTableCount_reads (memory_of [0x00, 0xFF]) 2 = [1, 255, 256]"
  by (simp add: GetTableCount_reads_def GetTableCount_loop.simps GetTableCount_strings.simps
      memory_of_def read_u16_def)

text \<open>
  C4. For every structure, \<^verbatim>\<open>GetString(offset)\<close> returns the empty text when the byte at
  \<^verbatim>\<open>start + offset\<close> is 0, and also when that byte is a non-zero index while the string
  list of the structure holds fewer strings than the index: the scan reaches the empty
  segment first, and an empty text is returned rather than a failure.
\<close>

theorem GetString_missing_is_empty:
  assumes "GetByte t offset = 0
    \<or> (stored_at (mem t) (data t + unat (GetByte t 0x01)) (encode_strings ss)
       \<and> list_all wellformed_string ss \<and> length ss < unat (GetByte t offset))"
  shows "GetString t offset = Some []"
  using assms by (rule GetString_empty)

theorem GetString_missing_is_empty_witness:
  "GetByte example_two_strings 0x05 = 3
   \<and> stored_at (mem example_two_strings)
        (data example_two_strings + unat (GetByte example_two_strings 0x01))
        (encode_strings [ [0x41, 0x42], [0x43] ])
   \<and> list_all wellformed_string [ [0x41, 0x42], [0x43] ]
   \<and> GetString example_two_strings 0x05 = Some []"
proof -
  have h: "GetByte example_two_strings 0x05 = 3"
    by (simp add: GetByte_def example_two_strings_def memory_of_def)
  have l: "GetByte example_two_strings 0x01 = 6"
    by (simp add: GetByte_def example_two_strings_def memory_of_def)
  have st: "stored_at (mem example_two_strings)
        (data example_two_strings + unat (GetByte example_two_strings 0x01))
        (encode_strings [ [0x41, 0x42], [0x43] ])"
  proof -
    have "stored_at (memory_of [1, 6, 0, 0, 1, 3, 0x41, 0x42, 0, 0x43, 0, 0]) 6
        [0x41, 0x42, 0, 0x43, 0, 0]"
      by (simp add: memory_of_def)
    moreover have "data example_two_strings + unat (GetByte example_two_strings 0x01) = 6"
      by (simp add: l) (simp add: example_two_strings_def)
    moreover have "mem example_two_strings = memory_of [1, 6, 0, 0, 1, 3, 0x41, 0x42, 0, 0x43, 0, 0]"
      by (simp add: example_two_strings_def)
    moreover have "encode_strings [ [0x41, 0x42], [0x43] ] = [0x41, 0x42, 0, 0x43, 0, 0 :: 8 word]"
      by (simp add: encode_strings_def)
    ultimately show ?thesis by simp
  qed
  have wf: "list_all wellformed_string [ [0x41, 0x42], [0x43 :: 8 word] ]"
    by (simp add: wellformed_string_def)
  have "length [ [0x41, 0x42], [0x43 :: 8 word] ] < unat (GetByte example_two_strings 0x05)"
    by (simp add: h)
  with st wf have "GetString example_two_strings 0x05 = Some []"
    by (intro GetString_missing_is_empty) blast
  with h st wf show ?thesis by blast
qed

text \<open>
  C5. When a structure with a declared length below 4 follows wellformed structures none
  of which has the requested type, \<^verbatim>\<open>GetTable\<close> returns \<open>None\<close> (\<^verbatim>\<open>nullptr\<close>), for
  every requested type, also the type of the malformed structure itself; and the structure
  count of the decoder is still the one \<^verbatim>\<open>Create\<close> computed. (\<^verbatim>\<open>GetTable\<close> is a
  \<^verbatim>\<open>const\<close> member function: it returns a pointer and no new state of the decoder.)
\<close>

theorem GetTable_malformed_structure:
  assumes "Create (Some d) sz = Inr s"
    and "list_all wellformed_structure pre" "\<forall>x \<in> set pre. stype x \<noteq> type"
    and "stored_at (smbios_table_data d) 0 (encode_blob pre)"
    and "smbios_table_data d (length (encode_blob pre) + 1) < 4"
  shows "GetTable s type = None
    \<and> table_count s = GetTableCount (smbios_table_data d) (length_field d)"
proof -
  note s = Create_Inr [OF assms(1)]
  have "GetTable_loop (smbios_table_data d) (unat (length_field d)) (table_count s) type 0 0 = None"
    using assms(2,3,4) by (rule GetTable_loop_malformed) (use assms(5) in simp)
  then show ?thesis by (simp add: GetTable_def s)
qed

theorem GetTable_malformed_structure_witness:
  "Create (Some example_malformed) 20
     = Inr \<lparr>smbios_data = example_malformed, data_size = 20, table_count = 3\<rparr>
   \<and> smbios_table_data example_malformed 6 = 1
   \<and> smbios_table_data example_malformed 7 = 3
   \<and> GetTable \<lparr>smbios_data = example_malformed, data_size = 20, table_count = 3\<rparr> 1 = None
   \<and> GetTable \<lparr>smbios_data = example_malformed, data_size = 20, table_count = 3\<rparr> 2 = None"
proof -
  let ?s = "\<lparr>smbios_data = example_malformed, data_size = 20, table_count = 3\<rparr>"
  let ?pre = "[\<lparr>stype = 0, shandle = 0, formatted = [], strings = []\<rparr>]"
  have c: "Create (Some example_malformed) 20 = Inr ?s"
    by (simp add: Create_def GetTableCount_example_malformed)
  have wf: "list_all wellformed_structure ?pre"
    by (simp add: wellformed_structure_def declared_length_def)
  have e: "encode_blob ?pre = [0, 4, 0, 0, 0, 0]"
    by (simp add: encode_blob_def encode_structure_def encode_strings_def declared_length_def)
  have st: "stored_at (smbios_table_data example_malformed) 0 (encode_blob ?pre)"
    using stored_at_memory_of [of "[]" "[0, 4, 0, 0, 0, 0]" "[1, 3, 0, 0, 0, 0]"]
    by (simp add: e example_malformed_def)
  have b6: "smbios_table_data example_malformed 6 = 1"
    and b7: "smbios_table_data example_malformed 7 = 3"
    by (simp_all add: example_malformed_def memory_of_def)
  have bad: "smbios_table_data example_malformed (length (encode_blob ?pre) + 1) < 4"
    by (simp add: e example_malformed_def memory_of_def)
  have "GetTable ?s 1 = None"
    using GetTable_malformed_structure [OF c wf _ st bad, of 1] by simp
  moreover have "GetTable ?s 2 = None"
    using GetTable_malformed_structure [OF c wf _ st bad, of 2] by simp
  ultimately show ?thesis using c b6 b7 by blast
qed

text \<open>
  C6, as amended. \<^verbatim>\<open>GetUUID\<close> returns the empty text when the declared length is below
  0x19, and when the sixteen UUID bytes are all 0x00 or all 0xFF. Otherwise it returns the
  hexadecimal text of the sixteen bytes in the groups 4-2-2-2-6; when
  \<^verbatim>\<open>(major << 8) + minor >= 0x0206\<close> the first eight bytes are taken in the order
  3, 2, 1, 0, 5, 4, 7, 6 and the bytes 8 to 15 as they are, else all sixteen bytes in raw
  order. With the bytes 01 to 10 (hexadecimal) the text is
  "04030201-0605-0807-090A-0B0C0D0E0F10" for version 2.6 and
  "01020304-0506-0708-090A-0B0C0D0E0F10" for version 2.0.
\<close>

theorem GetUUID_text:
  "(GetByte t 0x01 < 0x19 \<longrightarrow> GetUUID t = [])
   \<and> (uuid_bytes t = replicate 16 0x00 \<or> uuid_bytes t = replicate 16 0xFF \<longrightarrow> GetUUID t = [])
   \<and> (\<not> GetByte t 0x01 < 0x19 \<and> uuid_bytes t \<noteq> replicate 16 0x00
        \<and> uuid_bytes t \<noteq> replicate 16 0xFF \<longrightarrow>
      GetUUID t =
        (if 0x0206 \<le> push_bit 8 (uint (major_version t)) + uint (minor_version t)
         then StringPrintf_uuid (map (\<lambda>i. uuid_bytes t ! i) uuid_order)
         else StringPrintf_uuid (uuid_bytes t)))
   \<and> (\<not> GetByte t 0x01 < 0x19
        \<and> uuid_bytes t = [1, 2, 3, 4, 5, 6, 7, 8, 9, 10, 11, 12, 13, 14, 15, 16]
        \<and> major_version t = 2 \<and> minor_version t = 6 \<longrightarrow>
      GetUUID t = ''04030201-0605-0807-090A-0B0C0D0E0F10'')
   \<and> (\<not> GetByte t 0x01 < 0x19
        \<and> uuid_bytes t = [1, 2, 3, 4, 5, 6, 7, 8, 9, 10, 11, 12, 13, 14, 15, 16]
        \<and> major_version t = 2 \<and> minor_version t = 0 \<longrightarrow>
      GetUUID t = ''01020304-0506-0708-090A-0B0C0D0E0F10'')"
proof -
  have v: "push_bit 8 (uint (major_version t)) = uint (major_version t) * 256"
    by (simp add: push_bit_eq_mult)
  have ne: "[1, 2, 3, 4, 5, 6, 7, 8, 9, 10, 11, 12, 13, 14, 15, 16] \<noteq> replicate 16 (c :: 8 word)" for c
    by (simp add: numeral_eq_Suc)
  show ?thesis
    unfolding GetUUID_eq v
    using StringPrintf_uuid_example_26 StringPrintf_uuid_example_20 ne
    by auto
qed

theorem GetUUID_text_witness:
  "\<not> GetByte (example_system 0x19 2 6) 0x01 < 0x19
   \<and> uuid_bytes (example_system 0x19 2 6) = [1, 2, 3, 4, 5, 6, 7, 8, 9, 10, 11, 12, 13, 14, 15, 16]
   \<and> major_version (example_system 0x19 2 6) = 2 \<and> minor_version (example_system 0x19 2 6) = 6
   \<and> GetUUID (example_system 0x19 2 6) = ''04030201-0605-0807-090A-0B0C0D0E0F10''
   \<and> GetUUID (example_system 0x19 2 0) = ''01020304-0506-0708-090A-0B0C0D0E0F10''
   \<and> GetByte (example_system 0x08 2 6) 0x01 < 0x19 \<and> GetUUID (example_system 0x08 2 6) = []"
proof -
  have a: "GetUUID (example_system 0x19 2 6) = ''04030201-0605-0807-090A-0B0C0D0E0F10''"
    using GetUUID_text [of "example_system 0x19 2 6"] by (simp add: example_system_bytes)
  have b: "GetUUID (example_system 0x19 2 0) = ''01020304-0506-0708-090A-0B0C0D0E0F10''"
    using GetUUID_text [of "example_system 0x19 2 0"] by (simp add: example_system_bytes)
  have c: "GetUUID (example_system 0x08 2 6) = []"
    using GetUUID_text [of "example_system 0x08 2 6"] by (simp add: example_system_bytes)
  from a b c show ?thesis by (simp add: example_system_bytes)
qed

text \<open>
  The claim C6 as stated fails: a declared length of 0x18 covers the sixteen UUID bytes at
  the offsets 0x08 to 0x17, the bytes are neither all 0x00 nor all 0xFF, and yet the text
  returned is empty, because the test of the source is \<^verbatim>\<open>table_length < 0x19\<close>.
\<close>

theorem GetUUID_length_0x18_counterexample:
  "GetByte (example_system 0x18 2 6) 0x01 = 0x18
   \<and> uuid_bytes (example_system 0x18 2 6) = [1, 2, 3, 4, 5, 6, 7, 8, 9, 10, 11, 12, 13, 14, 15, 16]
   \<and> GetUUID (example_system 0x18 2 6) = []"
  by (simp add: example_system_bytes GetUUID_eq)

text \<open>
  C7, as amended. If bit 3 ("characteristics not supported") of the 64-bit flag word at
  offset 0x0A is set, \<^verbatim>\<open>GetCharacteristics\<close> reports none of the bits 4 to 31;
  otherwise it reports the bits 4 to 31 as (label, isSet) pairs in ascending order of the
  bit index. In both cases the eight flags of the first extension byte follow when the
  declared length is at least 0x13, and the three flags of the second when it is at least
  0x14. The list is empty exactly when bit 3 is set and the declared length is below 0x13.
\<close>

theorem GetCharacteristics_list:
  "GetCharacteristics t =
     (if bit (GetQword t 0x0A) 3 then []
      else map (\<lambda>i. (characteristics_names ! (i - 3), bit (GetQword t 0x0A) i)) [4..<32])
     @ (if 0x13 \<le> GetByte t 0x01
        then map (\<lambda>i. (characteristics1_names ! i, bit (GetByte t 0x12) i)) [0..<8] else [])
     @ (if 0x14 \<le> GetByte t 0x01
        then map (\<lambda>i. (characteristics2_names ! i, bit (GetByte t 0x13) i)) [0..<3] else [])
   \<and> (GetCharacteristics t = [] \<longleftrightarrow> bit (GetQword t 0x0A) 3 \<and> GetByte t 0x01 < 0x13)"
  using GetCharacteristics_eq [of t] GetCharacteristics_empty_iff [of t] by blast

text \<open>
  The claim C7 as stated fails: with bit 3 set and a declared length of 0x14 the list
  returned is not empty; it holds the eleven flags of the two extension bytes.
\<close>

theorem GetCharacteristics_unsupported_counterexample:
  "bit (GetQword example_bios_unsupported 0x0A) 3
   \<and> GetCharacteristics example_bios_unsupported =
       [(''ACPI'', True), (''USB legacy'', True), (''AGP'', False), (''I2O boot'', False),
        (''LS-120 boot'', False), (''ATAPI Zip drive boot'', False), (''IEEE 1394 boot'', False),
        (''Smart battery'', False), (''BIOS boot specification'', True),
        (''Function key-initiated network boot'', False),
        (''Targeted content distribution'', False)]"
proof -
  have q: "GetQword example_bios_unsupported 0x0A = 8"
    by (simp add: GetQword_def GetPointer_def read_u64_def example_bios_unsupported_def memory_of_def)
  have l: "GetByte example_bios_unsupported 0x01 = 0x14"
    "GetByte example_bios_unsupported 0x12 = 3" "GetByte example_bios_unsupported 0x13 = 1"
    by (simp_all add: GetByte_def example_bios_unsupported_def memory_of_def)
  have b: "bit (8 :: 64 word) 3" unfolding bit_iff_and_push_bit_not_eq_0 by simp
  have "GetCharacteristics example_bios_unsupported =
       [(''ACPI'', True), (''USB legacy'', True), (''AGP'', False), (''I2O boot'', False),
        (''LS-120 boot'', False), (''ATAPI Zip drive boot'', False), (''IEEE 1394 boot'', False),
        (''Smart battery'', False), (''BIOS boot specification'', True),
        (''Function key-initiated network boot'', False),
        (''Targeted content distribution'', False)]"
    by (simp add: GetCharacteristics_def Let_def q l characteristics1_loop.simps
        characteristics2_loop.simps characteristics1_names_def characteristics2_names_def)
  with b show ?thesis by (simp add: q)
qed

text \<open>
  C8, as amended. \<^verbatim>\<open>GetFeatures\<close> returns the empty list exactly when the declared
  length is below 0x0A or the low five bits of the feature byte at offset 0x09 are all
  zero; otherwise it returns five (label, isSet) pairs, one for each of the bits 0 to 4, in
  ascending order.
\<close>

theorem GetFeatures_list:
  "GetFeatures t =
     (if GetByte t 0x01 < 0x0A \<or> GetByte t 0x09 AND 0x1F = 0 then []
      else map (\<lambda>i. (feature_names ! i, bit (GetByte t 0x09) i)) [0..<5])
   \<and> (GetFeatures t = [] \<longleftrightarrow> GetByte t 0x01 < 0x0A \<or> GetByte t 0x09 AND 0x1F = 0)"
  using GetFeatures_eq [of t] GetFeatures_empty_iff [of t] by blast

text \<open>
  The claim C8 as stated fails: the feature byte 0x20 is not zero and the declared length
  0x0F covers it, and yet the list returned is empty, because the test of the source is
  \<^verbatim>\<open>(features & 0x1F) == 0\<close>.
\<close>

theorem GetFeatures_high_bits_counterexample:
  "\<not> GetByte example_baseboard 0x01 < 0x0A
   \<and> GetByte example_baseboard 0x09 = 0x20
   \<and> GetFeatures example_baseboard = []"
  by (simp add: GetFeatures_def GetByte_def example_baseboard_def memory_of_def)

text \<open>
  C9 says that \<^verbatim>\<open>GetTableCount\<close> returns at least 1 for every non-zero region length,
  whatever the bytes of the region. The code breaks this at the largest length: on a
  region of 0xFFFFFFFF zero bytes every step advances \<^verbatim>\<open>pos\<close> by two, \<^verbatim>\<open>count\<close> is
  incremented \<open>2 ^ 31\<close> times and overflows its \<^verbatim>\<open>int\<close>; the value returned is
  negative, \<^verbatim>\<open>Create\<close> accepts it because it is not zero, and the decoder it builds
  locates no structure of any type. (For every other non-zero length the count is at
  least 1: \<open>GetTableCount_at_least_one\<close>, \<open>Create_NoStructures_iff\<close>.)
\<close>

theorem GetTableCount_overflows_at_max_length:
  "length_field example_zero_region \<noteq> 0
   \<and> GetTableCount (smbios_table_data example_zero_region) (length_field example_zero_region)
       = - 2147483648
   \<and> Create (Some example_zero_region) 0x100000007
       = Inr \<lparr>smbios_data = example_zero_region, data_size = 0x100000007,
              table_count = - 2147483648\<rparr>
   \<and> GetTable \<lparr>smbios_data = example_zero_region, data_size = 0x100000007,
                table_count = - 2147483648\<rparr> type = None"
proof -
  have l: "length_field example_zero_region = 0xFFFFFFFF"
    and m: "smbios_table_data example_zero_region = memory_of []"
    by (simp_all add: example_zero_region_def)
  have c: "GetTableCount (smbios_table_data example_zero_region) (length_field example_zero_region)
      = - 2147483648"
    unfolding l m by (rule GetTableCount_zero_memory_max)
  have cr: "Create (Some example_zero_region) 0x100000007
       = Inr \<lparr>smbios_data = example_zero_region, data_size = 0x100000007,
              table_count = - 2147483648\<rparr>"
    by (simp add: Create_def c)
  have g: "GetTable \<lparr>smbios_data = example_zero_region, data_size = 0x100000007,
                table_count = - 2147483648\<rparr> type = None"
    by (rule GetTable_without_count) simp
  from c cr g show ?thesis by (simp add: l)
qed

text \<open>
  C10. For every 16-bit starting-address segment, \<^verbatim>\<open>GetRuntimeSize\<close> returns 0 when the
  segment is 0 and \<^verbatim>\<open>(0x10000 - segment) << 4\<close> otherwise; the kilobyte branch
  \<^verbatim>\<open>(code >> 10) * 1024\<close>, taken when the low ten bits of \<^verbatim>\<open>code\<close> are zero, is equal to
  \<^verbatim>\<open>code\<close> itself, so the choice of branch never changes the value returned.
\<close>

theorem GetRuntimeSize_value:
  "GetRuntimeSize t =
     (if GetWord t 0x06 = 0 then 0 else (0x10000 - uint (GetWord t 0x06)) * 2 ^ 4)
   \<and> (\<forall>code :: 32 word. code AND 0x000003FF = 0 \<longrightarrow> drop_bit 10 code * 1024 = code)"
proof
  show "GetRuntimeSize t =
     (if GetWord t 0x06 = 0 then 0 else (0x10000 - uint (GetWord t 0x06)) * 2 ^ 4)"
  proof (cases "GetWord t 0x06 = 0")
    case True
    then show ?thesis by (simp add: GetRuntimeSize_def)
  next
    case False
    define code :: "32 word" where "code = push_bit 4 (0x10000 - ucast (GetWord t 0x06))"
    have v: "sint code = (0x10000 - uint (GetWord t 0x06)) * 16"
      unfolding code_def using False by (rule runtime_code_value)
    have "GetRuntimeSize t = (if code AND 0x3FF \<noteq> 0 then sint code else sint (drop_bit 10 code * 1024))"
      using False by (simp add: GetRuntimeSize_def Let_def code_def)
    also have "\<dots> = sint code"
      by (simp add: kilobytes_back)
    finally show ?thesis using False v by simp
  qed
  show "\<forall>code :: 32 word. code AND 0x000003FF = 0 \<longrightarrow> drop_bit 10 code * 1024 = code"
    by (simp add: kilobytes_back)
qed

theorem GetRuntimeSize_value_witness:
  "GetRuntimeSize example_bios_runtime = 65536
   \<and> (0x10000 :: 32 word) AND 0x000003FF = 0
   \<and> drop_bit 10 (0x10000 :: 32 word) * 1024 = 0x10000"
proof -
  let ?t = "example_bios_runtime"
  have w: "GetWord ?t 0x06 = 0xF000"
    by (simp add: GetWord_def GetPointer_def read_u16_def memory_of_def example_bios_runtime_def)
  have z: "(0x10000 :: 32 word) AND 0x000003FF = 0" by simp
  from GetRuntimeSize_value [of ?t] have
    "GetRuntimeSize ?t = (if GetWord ?t 0x06 = 0 then 0 else (0x10000 - uint (GetWord ?t 0x06)) * 2 ^ 4)"
    and k: "\<forall>code :: 32 word. code AND 0x000003FF = 0 \<longrightarrow> drop_bit 10 code * 1024 = code"
    by blast+
  then have "GetRuntimeSize ?t = 65536" by (simp add: w)
  moreover from k z have "drop_bit 10 (0x10000 :: 32 word) * 1024 = 0x10000" by blast
  ultimately show ?thesis using z by blast
qed

end
